theory Spec2Isabelle
  imports Main "HOL-Library.AList" "HOL-Library.Char_ord"
begin

section \<open>Data model\<close>

text \<open>
  A trie node of \<^verbatim>\<open>fbtrie.py\<close> is a Python dict from a symbol to the child node. A dict
  keeps its keys in insertion order and \<^verbatim>\<open>Trie.fuzzy_\<close> walks \<^verbatim>\<open>node.items()\<close> in that
  order, so a node is an association list. The class \<^verbatim>\<open>Trie\<close> has the single field
  \<^verbatim>\<open>root\<close>; a value of type \<open>trie\<close> stands for that root. A Python string is a
  \<open>string\<close>: the source only compares symbols for equality and, in \<^verbatim>\<open>FBTrie\<close>, sorts
  the items of a node by symbol.
\<close>

datatype trie = Node "(char \<times> trie) list"

text \<open>The reserved end-of-word symbol, written \<^verbatim>\<open>"\0"\<close> in the source.\<close>

definition terminator :: char where
  "terminator = CHR 0x00"

text \<open>\<^verbatim>\<open>Trie.__init__\<close>: \<^verbatim>\<open>self.root = {}\<close>.\<close>

definition empty_trie :: trie where
  "empty_trie = Node []"

text \<open>
  The loop of \<^verbatim>\<open>Trie.insert\<close>: for each symbol, create the empty child when the symbol is
  not a key yet, then step into the child. The in-place mutation of the nested dicts is
  the functional update of the path; \<open>AList.update\<close> replaces the value of a key where it
  stands and appends a new key at the end, as a dict assignment does.
\<close>

primrec insert_loop :: "string \<Rightarrow> trie \<Rightarrow> trie" where
  "insert_loop [] node = node"
| "insert_loop (c # cs) node =
     (case node of Node kvs \<Rightarrow>
        (let child = (case map_of kvs c of None \<Rightarrow> Node [] | Some ch \<Rightarrow> ch)
         in Node (AList.update c (insert_loop cs child) kvs)))"

text \<open>\<^verbatim>\<open>Trie.insert\<close>: \<^verbatim>\<open>word = word + "\0"\<close>, then the loop from the root.\<close>

definition insert_word :: "string \<Rightarrow> trie \<Rightarrow> trie" where
  "insert_word word root = insert_loop (word @ [terminator]) root"

text \<open>A trie built by a sequence of inserts, first word first.\<close>

definition build :: "string list \<Rightarrow> trie" where
  "build ws = foldl (\<lambda>t w. insert_word w t) empty_trie ws"

text \<open>\<^verbatim>\<open>class FBTrie\<close>: the forward trie \<^verbatim>\<open>f\<close> and the backward trie \<^verbatim>\<open>b\<close>.\<close>

record fbtrie =
  f :: trie
  b :: trie

definition empty_fbtrie :: fbtrie where
  "empty_fbtrie = \<lparr>f = empty_trie, b = empty_trie\<rparr>"

text \<open>\<^verbatim>\<open>FBTrie.insert\<close>: the word into \<^verbatim>\<open>f\<close>, the reversed word (\<^verbatim>\<open>word[::-1]\<close>) into \<^verbatim>\<open>b\<close>.\<close>

definition fb_insert :: "string \<Rightarrow> fbtrie \<Rightarrow> fbtrie" where
  "fb_insert word t = \<lparr>f = insert_word word (f t), b = insert_word (rev word) (b t)\<rparr>"

definition fb_build :: "string list \<Rightarrow> fbtrie" where
  "fb_build ws = foldl (\<lambda>t w. fb_insert w t) empty_fbtrie ws"

section \<open>The DP table\<close>

text \<open>
  Python raises \<^verbatim>\<open>IndexError\<close> on an index out of range and \<^verbatim>\<open>ValueError\<close> on \<^verbatim>\<open>min\<close> of
  an empty sequence; both are values of the model, and a run that raises is the error,
  whatever it yielded before. Every index the source computes is
  \<^verbatim>\<open>i\<close>, \<^verbatim>\<open>i - 1\<close>, \<^verbatim>\<open>j\<close>, \<^verbatim>\<open>j - 1\<close> or \<^verbatim>\<open>len(query)\<close> with \<^verbatim>\<open>i\<close> and \<^verbatim>\<open>j\<close> counting
  up from 1, so no index is negative and Python's wrap-around of negative indices never
  applies; indices are natural numbers.
\<close>

datatype error = IndexError | ValueError

type_synonym table = "int list list"

type_synonym hits = "(string \<times> int) list"

text \<open>\<^verbatim>\<open>tab[r][c]\<close> as an expression.\<close>

definition tab_get :: "table \<Rightarrow> nat \<Rightarrow> nat \<Rightarrow> error + int" where
  "tab_get tab r c =
     (if r < length tab \<and> c < length (tab ! r) then Inr (tab ! r ! c) else Inl IndexError)"

text \<open>\<^verbatim>\<open>tab[r][c] = v\<close>.\<close>

definition tab_set :: "table \<Rightarrow> nat \<Rightarrow> nat \<Rightarrow> int \<Rightarrow> error + table" where
  "tab_set tab r c v =
     (if r < length tab \<and> c < length (tab ! r) then Inr (tab[r := (tab ! r)[c := v]])
      else Inl IndexError)"

text \<open>\<^verbatim>\<open>query[j]\<close>.\<close>

definition str_get :: "string \<Rightarrow> nat \<Rightarrow> error + char" where
  "str_get s j = (if j < length s then Inr (s ! j) else Inl IndexError)"

text \<open>\<^verbatim>\<open>len(tab[r])\<close>.\<close>

definition row_len :: "table \<Rightarrow> nat \<Rightarrow> error + nat" where
  "row_len tab r = (if r < length tab then Inr (length (tab ! r)) else Inl IndexError)"

text \<open>\<^verbatim>\<open>min(tab[r])\<close>.\<close>

definition row_min :: "table \<Rightarrow> nat \<Rightarrow> error + int" where
  "row_min tab r =
     (if r < length tab then
        (case tab ! r of [] \<Rightarrow> Inl ValueError | x # xs \<Rightarrow> Inr (fold min xs x))
      else Inl IndexError)"

text \<open>
  \<^verbatim>\<open>tab = [[0] * (n + 1) for _ in range(n + k + 1)]\<close>; \<^verbatim>\<open>range\<close> of a number below 1 is
  empty.
\<close>

definition new_tab :: "nat \<Rightarrow> int \<Rightarrow> table" where
  "new_tab n k = replicate (nat (int n + k + 1)) (replicate (n + 1) 0)"

text \<open>\<^verbatim>\<open>for j in range(n + 1): tab[0][j] = j\<close>, the list being the values of \<^verbatim>\<open>j\<close>.\<close>

primrec row0_loop :: "nat list \<Rightarrow> table \<Rightarrow> error + table" where
  "row0_loop [] tab = Inr tab"
| "row0_loop (j # js) tab =
     (case tab_set tab 0 j (int j) of Inl e \<Rightarrow> Inl e | Inr tab' \<Rightarrow> row0_loop js tab')"

definition init_tab :: "nat \<Rightarrow> int \<Rightarrow> error + table" where
  "init_tab n k = row0_loop [0..<n + 1] (new_tab n k)"

text \<open>
  One pass of the inner loop of lines 93 to 98 (and 161 to 166), for one column \<^verbatim>\<open>j\<close>:
  the substitution cost against \<^verbatim>\<open>query[j - 1]\<close>, the three candidates and their minimum.
\<close>

definition cell_step :: "nat \<Rightarrow> char \<Rightarrow> string \<Rightarrow> nat \<Rightarrow> table \<Rightarrow> error + table" where
  "cell_step i c query j tab =
     (case str_get query (j - 1) of Inl e \<Rightarrow> Inl e | Inr q \<Rightarrow>
      (let sub_cost = (if c \<noteq> q then 1 else 0) in
       case tab_get tab (i - 1) (j - 1) of Inl e \<Rightarrow> Inl e | Inr x \<Rightarrow>
       (let sub = x + sub_cost in
        case tab_get tab (i - 1) j of Inl e \<Rightarrow> Inl e | Inr y \<Rightarrow>
        (let insert = y + 1 in
         case tab_get tab i (j - 1) of Inl e \<Rightarrow> Inl e | Inr z \<Rightarrow>
         (let delete = z + 1 in
          tab_set tab i j (min (min sub insert) delete))))))"

primrec cell_loop :: "nat \<Rightarrow> char \<Rightarrow> string \<Rightarrow> nat list \<Rightarrow> table \<Rightarrow> error + table" where
  "cell_loop i c query [] tab = Inr tab"
| "cell_loop i c query (j # js) tab =
     (case cell_step i c query j tab of Inl e \<Rightarrow> Inl e
      | Inr tab' \<Rightarrow> cell_loop i c query js tab')"

text \<open>
  Lines 92 to 98: \<^verbatim>\<open>tab[i][0] = i\<close>, then the loop \<^verbatim>\<open>for j in range(1, len(tab[i]))\<close>.
\<close>

definition fill_row :: "table \<Rightarrow> nat \<Rightarrow> char \<Rightarrow> string \<Rightarrow> error + table" where
  "fill_row tab i c query =
     (case tab_set tab i 0 (int i) of Inl e \<Rightarrow> Inl e | Inr tab1 \<Rightarrow>
      (case row_len tab1 i of Inl e \<Rightarrow> Inl e | Inr m \<Rightarrow>
         cell_loop i c query [1..<m] tab1))"

section \<open>The plain trie search\<close>

text \<open>
  \<^verbatim>\<open>Trie.traverse\<close>: every terminated string below a node, each with the distance \<^verbatim>\<open>d\<close>.
\<close>

fun traverse :: "int \<Rightarrow> trie \<Rightarrow> string \<Rightarrow> hits" where
  "traverse d (Node kvs) sofar =
     concat (map (\<lambda>(c, child).
        if c = terminator then [(sofar, d)] else traverse d child (sofar @ [c])) kvs)"

text \<open>
  \<^verbatim>\<open>Trie.fuzzy_\<close> (a name cannot end in an underscore here). The generator's yields are
  the returned list, in the order of the yields; the table is the one mutable buffer of
  the source, passed in and returned. \<open>fuzzy_items\<close> is the \<^verbatim>\<open>for c, child in node.items()\<close>
  loop on the items still to visit.
\<close>

fun fuzzy_aux ::
    "(nat \<Rightarrow> int) \<Rightarrow> table \<Rightarrow> trie \<Rightarrow> nat \<Rightarrow> string \<Rightarrow> string \<Rightarrow> bool \<Rightarrow> error + (hits \<times> table)"
  and fuzzy_items ::
    "(nat \<Rightarrow> int) \<Rightarrow> table \<Rightarrow> (char \<times> trie) list \<Rightarrow> nat \<Rightarrow> string \<Rightarrow> string \<Rightarrow> bool
      \<Rightarrow> error + (hits \<times> table)"
where
  "fuzzy_aux k_fn tab (Node kvs) i sofar query prefix =
     (if prefix \<and> i \<ge> length query + 1 then
        (case tab_get tab (i - 1) (length query) of Inl e \<Rightarrow> Inl e
         | Inr d \<Rightarrow>
             if d \<le> k_fn i then Inr (traverse d (Node kvs) sofar, tab) else Inr ([], tab))
      else if i \<ge> length tab then Inr ([], tab)
      else fuzzy_items k_fn tab kvs i sofar query prefix)"
| "fuzzy_items k_fn tab [] i sofar query prefix = Inr ([], tab)"
| "fuzzy_items k_fn tab ((c, child) # rest) i sofar query prefix =
     (case tab_get tab (i - 1) (length query) of Inl e \<Rightarrow> Inl e
      | Inr d \<Rightarrow>
          if c = terminator \<and> d \<le> k_fn i then
            (case fuzzy_items k_fn tab rest i sofar query prefix of Inl e \<Rightarrow> Inl e
             | Inr (ys, tab') \<Rightarrow> Inr ((sofar, d) # ys, tab'))
          else
            (case fill_row tab i c query of Inl e \<Rightarrow> Inl e
             | Inr tab1 \<Rightarrow>
               (case row_min tab1 i of Inl e \<Rightarrow> Inl e
                | Inr smallest \<Rightarrow>
                  (case (if smallest \<le> k_fn i
                         then fuzzy_aux k_fn tab1 child (i + 1) (sofar @ [c]) query prefix
                         else Inr ([], tab1)) of
                     Inl e \<Rightarrow> Inl e
                   | Inr (ys, tab2) \<Rightarrow>
                     (case fuzzy_items k_fn tab2 rest i sofar query prefix of Inl e \<Rightarrow> Inl e
                      | Inr (zs, tab3) \<Rightarrow> Inr (ys @ zs, tab3))))))"

text \<open>
  \<^verbatim>\<open>Trie.fuzzy(query, k, k_fn=None, prefix=False)\<close>: the table, row 0, the default budget
  function \<^verbatim>\<open>lambda i: k\<close>, and the walk from the root at depth 1.
\<close>

definition fuzzy :: "trie \<Rightarrow> string \<Rightarrow> int \<Rightarrow> (nat \<Rightarrow> int) option \<Rightarrow> bool \<Rightarrow> error + hits" where
  "fuzzy root query k k_fn prefix =
     (let n = length query in
      case init_tab n k of Inl e \<Rightarrow> Inl e
      | Inr tab \<Rightarrow>
        (let kf = (case k_fn of None \<Rightarrow> (\<lambda>i. k) | Some g \<Rightarrow> g) in
         case fuzzy_aux kf tab root 1 [] query prefix of Inl e \<Rightarrow> Inl e
         | Inr (ys, tab') \<Rightarrow> Inr ys))"

section \<open>The forward/backward search\<close>

text \<open>
  \<^verbatim>\<open>FBTrie.trie_fuzzy_\<close> visits \<^verbatim>\<open>sorted(node.items(), key=lambda x: x[0])\<close>: the items in
  the order of their symbols. Sorting does not change what a node holds, so the walk
  still descends into smaller tries.
\<close>

lemma size_list_insort_key:
  "size_list g (insort_key h x xs) = size_list g (x # xs)"
  by (induction xs) auto

lemma size_list_sort_key [simp]:
  "size_list g (sort_key h xs) = size_list g xs"
  by (induction xs) (auto simp: size_list_insort_key)

text \<open>
  \<^verbatim>\<open>FBTrie.trie_fuzzy_\<close>. The terminator test compares with the full budget \<^verbatim>\<open>k\<close> in both
  phases. After the row is filled, \<^verbatim>\<open>phase == 1 and tab[i][len(subq)] <= subk\<close> reads the
  table only in phase 1 (\<^verbatim>\<open>and\<close> short-circuits); when it holds the child is searched
  with budget \<^verbatim>\<open>k\<close> in phase 2, and otherwise the row minimum is compared with \<^verbatim>\<open>subk\<close> and
  the child is searched in the same phase.
\<close>

fun trie_fuzzy_aux ::
    "int \<Rightarrow> int \<Rightarrow> table \<Rightarrow> trie \<Rightarrow> nat \<Rightarrow> string \<Rightarrow> string \<Rightarrow> string \<Rightarrow> nat
      \<Rightarrow> error + (hits \<times> table)"
  and trie_fuzzy_items ::
    "int \<Rightarrow> int \<Rightarrow> table \<Rightarrow> (char \<times> trie) list \<Rightarrow> nat \<Rightarrow> string \<Rightarrow> string \<Rightarrow> string \<Rightarrow> nat
      \<Rightarrow> error + (hits \<times> table)"
where
  "trie_fuzzy_aux subk k tab (Node kvs) i sofar subq query phase =
     (if i \<ge> length tab then Inr ([], tab)
      else trie_fuzzy_items subk k tab (sort_key fst kvs) i sofar subq query phase)"
| "trie_fuzzy_items subk k tab [] i sofar subq query phase = Inr ([], tab)"
| "trie_fuzzy_items subk k tab ((c, child) # rest) i sofar subq query phase =
     (case tab_get tab (i - 1) (length query) of Inl e \<Rightarrow> Inl e
      | Inr d \<Rightarrow>
          if c = terminator \<and> d \<le> k then
            (case trie_fuzzy_items subk k tab rest i sofar subq query phase of Inl e \<Rightarrow> Inl e
             | Inr (ys, tab') \<Rightarrow> Inr ((sofar, d) # ys, tab'))
          else
            (case fill_row tab i c query of Inl e \<Rightarrow> Inl e
             | Inr tab1 \<Rightarrow>
               (case (if phase = 1
                      then (case tab_get tab1 i (length subq) of Inl e \<Rightarrow> Inl e
                            | Inr v \<Rightarrow> Inr (v \<le> subk))
                      else Inr False) of
                  Inl e \<Rightarrow> Inl e
                | Inr switch \<Rightarrow>
                    if switch then
                      (case trie_fuzzy_aux k k tab1 child (i + 1) (sofar @ [c]) subq query 2 of
                         Inl e \<Rightarrow> Inl e
                       | Inr (ys, tab2) \<Rightarrow>
                         (case trie_fuzzy_items subk k tab2 rest i sofar subq query phase of
                            Inl e \<Rightarrow> Inl e
                          | Inr (zs, tab3) \<Rightarrow> Inr (ys @ zs, tab3)))
                    else
                      (case row_min tab1 i of Inl e \<Rightarrow> Inl e
                       | Inr smallest \<Rightarrow>
                         (case (if smallest \<le> subk
                                then trie_fuzzy_aux subk k tab1 child (i + 1) (sofar @ [c])
                                       subq query phase
                                else Inr ([], tab1)) of
                            Inl e \<Rightarrow> Inl e
                          | Inr (ys, tab2) \<Rightarrow>
                            (case trie_fuzzy_items subk k tab2 rest i sofar subq query phase of
                               Inl e \<Rightarrow> Inl e
                             | Inr (zs, tab3) \<Rightarrow> Inr (ys @ zs, tab3)))))))"

text \<open>\<^verbatim>\<open>FBTrie.trie_fuzzy\<close>: a fresh table for the full query, then the walk in phase 1.\<close>

definition trie_fuzzy :: "trie \<Rightarrow> int \<Rightarrow> int \<Rightarrow> string \<Rightarrow> string \<Rightarrow> error + hits" where
  "trie_fuzzy root subk k subq query =
     (let n = length query in
      case init_tab n k of Inl e \<Rightarrow> Inl e
      | Inr tab \<Rightarrow>
        (case trie_fuzzy_aux subk k tab root 1 [] subq query 1 of Inl e \<Rightarrow> Inl e
         | Inr (ys, tab') \<Rightarrow> Inr ys))"

text \<open>
  The two reduced budgets of \<^verbatim>\<open>FBTrie.fuzzy\<close>: line 132, \<^verbatim>\<open>k1 = (k - 1) // 2\<close>, and
  line 136, \<^verbatim>\<open>k2 = k // 2\<close>. \<^verbatim>\<open>//\<close> is floor division, as \<open>div\<close> on \<open>int\<close> is.
\<close>

definition fb_k1 :: "int \<Rightarrow> int" where
  "fb_k1 k = (k - 1) div 2"

definition fb_k2 :: "int \<Rightarrow> int" where
  "fb_k2 k = k div 2"

text \<open>
  \<^verbatim>\<open>FBTrie.fuzzy\<close>: the query split at \<^verbatim>\<open>n // 2\<close>, the forward walk, then the backward walk
  on the reversed query, its words reversed again (\<^verbatim>\<open>s[::-1]\<close> is \<open>rev\<close>).
\<close>

definition fb_fuzzy :: "fbtrie \<Rightarrow> string \<Rightarrow> int \<Rightarrow> error + hits" where
  "fb_fuzzy t query k =
     (let n = length query;
          q1 = take (n div 2) query;
          q2 = drop (n div 2) query;
          k1 = fb_k1 k
      in case trie_fuzzy (f t) k1 k q1 query of Inl e \<Rightarrow> Inl e
         | Inr r1 \<Rightarrow>
           (let k2 = fb_k2 k
            in case trie_fuzzy (b t) k2 k (rev q2) (rev query) of Inl e \<Rightarrow> Inl e
               | Inr r2 \<Rightarrow> Inr (r1 @ map (\<lambda>(word, d). (rev word, d)) r2)))"

section \<open>Levenshtein distance\<close>

text \<open>
  The reference the search is measured against: the least number of single-symbol
  insertions, deletions and substitutions that turn one string into the other, by the
  textbook recursion on the first symbols.
\<close>

fun LevenshteinDistance :: "'a list \<Rightarrow> 'a list \<Rightarrow> nat" where
  "LevenshteinDistance [] ys = length ys"
| "LevenshteinDistance (x # xs) [] = Suc (length xs)"
| "LevenshteinDistance (x # xs) (y # ys) =
     min (min (LevenshteinDistance xs ys + (if x = y then 0 else 1))
              (LevenshteinDistance xs (y # ys) + 1))
         (LevenshteinDistance (x # xs) ys + 1)"

text \<open>
  The same notion as a relation: \<open>edits xs ys n\<close> when \<open>xs\<close> is turned into \<open>ys\<close> by a
  left-to-right script of kept symbols (free), substitutions, deletions and insertions
  (one each) of total cost \<open>n\<close>.
\<close>

inductive edits :: "'a list \<Rightarrow> 'a list \<Rightarrow> nat \<Rightarrow> bool" where
  edits_Nil: "edits [] [] 0"
| edits_keep: "edits xs ys n \<Longrightarrow> edits (x # xs) (x # ys) n"
| edits_subst: "edits xs ys n \<Longrightarrow> edits (x # xs) (y # ys) (Suc n)"
| edits_delete: "edits xs ys n \<Longrightarrow> edits (x # xs) ys (Suc n)"
| edits_insert: "edits xs ys n \<Longrightarrow> edits xs (y # ys) (Suc n)"

section \<open>Notions of the claims and of their proofs\<close>

text \<open>
  The row a correct table holds for the path \<open>p\<close>: its distances to the prefixes of the
  query, shortest first.
\<close>

definition lev_row :: "string \<Rightarrow> string \<Rightarrow> int list" where
  "lev_row p q = map (\<lambda>j. int (LevenshteinDistance p (take j q))) [0..<Suc (length q)]"

text \<open>
  Every row of the table has \<open>m\<close> columns.
\<close>

definition rect :: "table \<Rightarrow> nat \<Rightarrow> bool" where
  "rect tab m = (\<forall>row \<in> set tab. length row = m)"

text \<open>
  The invariant of the table at a call of the walk with depth \<open>i\<close> and path \<open>sofar\<close>: the
  path has \<open>i - 1\<close> symbols, every row has one column for each prefix of the query, and
  cell \<open>(r, j)\<close> of every row \<open>r < i\<close> the table has is the distance between the first \<open>r\<close>
  symbols of the path and the first \<open>j\<close> symbols of the query.
\<close>

definition tab_inv :: "table \<Rightarrow> nat \<Rightarrow> string \<Rightarrow> string \<Rightarrow> bool" where
  "tab_inv tab i sofar query =
     (i = Suc (length sofar) \<and> rect tab (Suc (length query)) \<and>
      (\<forall>r \<in> {..<min i (length tab)}. \<forall>j \<in> {..length query}.
         tab ! r ! j = int (LevenshteinDistance (take r sofar) (take j query))))"

text \<open>
  What a call at depth \<open>i\<close> may do to the table: it keeps the shape and the rows above
  row \<open>i\<close>.
\<close>

definition frame :: "table \<Rightarrow> table \<Rightarrow> nat \<Rightarrow> bool" where
  "frame tab tab' i =
     (length tab' = length tab \<and> (\<forall>m. rect tab m \<longrightarrow> rect tab' m) \<and>
      (\<forall>r < i. r < length tab \<longrightarrow> tab' ! r = tab ! r))"

text \<open>
  The least entry of the row of a path, \<^verbatim>\<open>min(tab[i])\<close> on a correct table.
\<close>

definition row_least :: "string \<Rightarrow> string \<Rightarrow> int" where
  "row_least p q = Min (set (lev_row p q))"

text \<open>
  The plain walk with prefix mode off, as a function of the path alone: the table is
  replaced by the distances it holds, \<open>R\<close> is its number of rows.
\<close>

fun psearch :: "(nat \<Rightarrow> int) \<Rightarrow> nat \<Rightarrow> string \<Rightarrow> trie \<Rightarrow> string \<Rightarrow> hits"
  and psearch_items :: "(nat \<Rightarrow> int) \<Rightarrow> nat \<Rightarrow> string \<Rightarrow> (char \<times> trie) list \<Rightarrow> string \<Rightarrow> hits"
where
  "psearch kf R q (Node kvs) sofar =
     (if R \<le> Suc (length sofar) then [] else psearch_items kf R q kvs sofar)"
| "psearch_items kf R q [] sofar = []"
| "psearch_items kf R q ((c, child) # rest) sofar =
     (if c = terminator \<and> int (LevenshteinDistance sofar q) \<le> kf (Suc (length sofar))
      then (sofar, int (LevenshteinDistance sofar q)) # psearch_items kf R q rest sofar
      else (if row_least (sofar @ [c]) q \<le> kf (Suc (length sofar))
            then psearch kf R q child (sofar @ [c]) else [])
           @ psearch_items kf R q rest sofar)"

text \<open>
  The forward/backward walk in the same way.
\<close>

fun fb_psearch :: "int \<Rightarrow> int \<Rightarrow> nat \<Rightarrow> string \<Rightarrow> string \<Rightarrow> trie \<Rightarrow> string \<Rightarrow> nat \<Rightarrow> hits"
  and fb_psearch_items ::
    "int \<Rightarrow> int \<Rightarrow> nat \<Rightarrow> string \<Rightarrow> string \<Rightarrow> (char \<times> trie) list \<Rightarrow> string \<Rightarrow> nat \<Rightarrow> hits"
where
  "fb_psearch subk k R subq q (Node kvs) sofar phase =
     (if R \<le> Suc (length sofar) then []
      else fb_psearch_items subk k R subq q (sort_key fst kvs) sofar phase)"
| "fb_psearch_items subk k R subq q [] sofar phase = []"
| "fb_psearch_items subk k R subq q ((c, child) # rest) sofar phase =
     (if c = terminator \<and> int (LevenshteinDistance sofar q) \<le> k
      then (sofar, int (LevenshteinDistance sofar q)) # fb_psearch_items subk k R subq q rest sofar phase
      else (if phase = 1 \<and> lev_row (sofar @ [c]) q ! length subq \<le> subk
            then fb_psearch k k R subq q child (sofar @ [c]) 2
            else if row_least (sofar @ [c]) q \<le> subk
            then fb_psearch subk k R subq q child (sofar @ [c]) phase
            else [])
           @ fb_psearch_items subk k R subq q rest sofar phase)"

text \<open>
  The words a trie stores: the paths from the root to a terminator edge.
\<close>

fun words :: "trie \<Rightarrow> string set" where
  "words (Node kvs) =
     (\<Union>(c, t) \<in> set kvs. if c = terminator then {[]} else (#) c ` words t)"

text \<open>
  The shape of a trie built from terminator-free words: no symbol twice in a node, and
  nothing below a terminator edge.
\<close>

fun wf_trie :: "trie \<Rightarrow> bool" where
  "wf_trie (Node kvs) =
     (distinct (map fst kvs) \<and>
      (\<forall>(c, t) \<in> set kvs. (c = terminator \<longrightarrow> t = Node []) \<and> wf_trie t))"

text \<open>
  What a search with budget \<open>k\<close> and \<open>R\<close> table rows owes for the words \<open>W\<close> below the
  path \<open>sofar\<close>: the words within the budget whose terminator is tested before the row
  capacity is reached.
\<close>

definition within :: "int \<Rightarrow> nat \<Rightarrow> string \<Rightarrow> string \<Rightarrow> string set \<Rightarrow> (string \<times> int) set" where
  "within k R q sofar W =
     {(sofar @ u, int (LevenshteinDistance (sofar @ u) q)) | u.
        u \<in> W \<and> int (LevenshteinDistance (sofar @ u) q) \<le> k \<and> Suc (length (sofar @ u)) < R}"

section \<open>Properties of the distance\<close>

lemma lev_Nil2 [simp]: "LevenshteinDistance xs [] = length xs"
  by (cases xs) simp_all

lemma lev_Cons1_le: "LevenshteinDistance (x # xs) ys \<le> Suc (LevenshteinDistance xs ys)"
  by (cases ys) simp_all

lemma lev_Cons2_le: "LevenshteinDistance xs (y # ys) \<le> Suc (LevenshteinDistance xs ys)"
  by (cases xs) simp_all

lemma lev_subst_le: "LevenshteinDistance (x # xs) (y # ys) \<le> Suc (LevenshteinDistance xs ys)"
  by (simp add: min_le_iff_disj)

lemma lev_keep_le: "LevenshteinDistance (x # xs) (x # ys) \<le> LevenshteinDistance xs ys"
  by (simp add: min_le_iff_disj)

lemma edits_lev: "edits xs ys (LevenshteinDistance xs ys)"
proof (induction xs ys rule: LevenshteinDistance.induct)
  case (1 ys)
  show ?case by (induction ys) (auto intro: edits.intros)
next
  case (2 x xs)
  have "edits zs [] (length zs)" for zs :: "'a list"
    by (induction zs) (auto intro: edits.intros)
  from this [of "x # xs"] show ?case by simp
next
  case (3 x xs y ys)
  let ?s = "LevenshteinDistance xs ys + (if x = y then 0 else 1)"
  let ?i = "LevenshteinDistance xs (y # ys) + 1"
  let ?d = "LevenshteinDistance (x # xs) ys + 1"
  have s: "edits (x # xs) (y # ys) ?s"
    using "3.IH"(1) by (auto intro: edits.intros)
  have i: "edits (x # xs) (y # ys) ?i"
    using "3.IH"(2) by (auto intro: edits.intros)
  have d: "edits (x # xs) (y # ys) ?d"
    using "3.IH"(3) by (auto intro: edits.intros)
  have "LevenshteinDistance (x # xs) (y # ys) \<in> {?s, ?i, ?d}"
    by (simp add: min_def)
  with s i d show ?case by auto
qed

lemma lev_least: "edits xs ys n \<Longrightarrow> LevenshteinDistance xs ys \<le> n"
proof (induction rule: edits.induct)
  case edits_Nil
  show ?case by simp
next
  case (edits_keep xs ys n x)
  then show ?case using lev_keep_le [of x xs ys] by linarith
next
  case (edits_subst xs ys n x y)
  then show ?case using lev_subst_le [of x xs y ys] by linarith
next
  case (edits_delete xs ys n x)
  then show ?case using lev_Cons1_le [of x xs ys] by linarith
next
  case (edits_insert xs ys n y)
  then show ?case using lev_Cons2_le [of xs y ys] by linarith
qed

lemma edits_snoc_keep: "edits xs ys n \<Longrightarrow> edits (xs @ [x]) (ys @ [x]) n"
  by (induction rule: edits.induct) (auto intro: edits.intros)

lemma edits_snoc_subst: "edits xs ys n \<Longrightarrow> edits (xs @ [x]) (ys @ [y]) (Suc n)"
  by (induction rule: edits.induct) (auto intro: edits.intros)

lemma edits_snoc_delete: "edits xs ys n \<Longrightarrow> edits (xs @ [x]) ys (Suc n)"
  by (induction rule: edits.induct) (auto intro: edits.intros)

lemma edits_snoc_insert: "edits xs ys n \<Longrightarrow> edits xs (ys @ [y]) (Suc n)"
  by (induction rule: edits.induct) (auto intro: edits.intros)

lemma edits_rev: "edits xs ys n \<Longrightarrow> edits (rev xs) (rev ys) n"
  by (induction rule: edits.induct)
     (auto intro: edits.intros edits_snoc_keep edits_snoc_subst edits_snoc_delete edits_snoc_insert)

lemma lev_rev_le: "LevenshteinDistance (rev xs) (rev ys) \<le> LevenshteinDistance xs ys"
  by (rule lev_least [OF edits_rev [OF edits_lev]])

lemma lev_rev: "LevenshteinDistance (rev xs) (rev ys) = LevenshteinDistance xs ys"
  using lev_rev_le [of xs ys] lev_rev_le [of "rev xs" "rev ys"] by simp

lemma lev_snoc_Nil: "LevenshteinDistance [] ys = length ys"
  by simp

lemma lev_snoc_snoc:
  "LevenshteinDistance (xs @ [x]) (ys @ [y]) =
     min (min (LevenshteinDistance xs ys + (if x = y then 0 else 1))
              (LevenshteinDistance xs (ys @ [y]) + 1))
         (LevenshteinDistance (xs @ [x]) ys + 1)"
proof -
  have "LevenshteinDistance (xs @ [x]) (ys @ [y]) =
        LevenshteinDistance (x # rev xs) (y # rev ys)"
    using lev_rev [of "xs @ [x]" "ys @ [y]"] by simp
  also have "\<dots> = min (min (LevenshteinDistance (rev xs) (rev ys) + (if x = y then 0 else 1))
              (LevenshteinDistance (rev xs) (rev (ys @ [y])) + 1))
         (LevenshteinDistance (rev (xs @ [x])) (rev ys) + 1)"
    by simp
  finally show ?thesis by (simp only: lev_rev)
qed

lemma edits_length1: "edits xs ys n \<Longrightarrow> length xs \<le> length ys + n"
  by (induction rule: edits.induct) auto

lemma edits_length2: "edits xs ys n \<Longrightarrow> length ys \<le> length xs + n"
  by (induction rule: edits.induct) auto

lemma lev_length1: "length xs \<le> length ys + LevenshteinDistance xs ys"
  by (rule edits_length1 [OF edits_lev])

lemma lev_length2: "length ys \<le> length xs + LevenshteinDistance xs ys"
  by (rule edits_length2 [OF edits_lev])

lemma lev_same: "LevenshteinDistance xs xs = 0"
  by (induction xs) auto

lemma edits_0: "edits xs ys n \<Longrightarrow> n = 0 \<Longrightarrow> xs = ys"
  by (induction rule: edits.induct) auto

lemma lev_0_iff: "LevenshteinDistance xs ys = 0 \<longleftrightarrow> xs = ys"
  using edits_0 [OF edits_lev, of xs ys] by (auto simp: lev_same)

section \<open>Rows of the table\<close>

lemma length_lev_row [simp]: "length (lev_row p q) = Suc (length q)"
  by (simp add: lev_row_def)

lemma lev_row_nth: "j \<le> length q \<Longrightarrow> lev_row p q ! j = int (LevenshteinDistance p (take j q))"
  unfolding lev_row_def by (simp del: upt_Suc add: less_Suc_eq_le)

lemma rect_nth: "rect tab m \<Longrightarrow> r < length tab \<Longrightarrow> length (tab ! r) = m"
  by (simp add: rect_def)

lemma rect_update: "rect tab m \<Longrightarrow> length row = m \<Longrightarrow> rect (tab[r := row]) m"
  unfolding rect_def by (auto dest: set_update_subset_insert [THEN subsetD])

lemma lev_row_snoc_cell:
  assumes "0 < j" "j \<le> length q"
  shows "lev_row (p @ [c]) q ! j =
           min (min (lev_row p q ! (j - 1) + (if c \<noteq> q ! (j - 1) then 1 else 0))
                    (lev_row p q ! j + 1))
               (lev_row (p @ [c]) q ! (j - 1) + 1)"
proof -
  obtain j' where j: "j = Suc j'" using assms(1) by (cases j) auto
  with assms have j'q: "j' < length q" by simp
  have tk: "take j q = take j' q @ [q ! j']"
    using j j'q by (simp add: take_Suc_conv_app_nth)
  have "LevenshteinDistance (p @ [c]) (take j q) =
          min (min (LevenshteinDistance p (take j' q) + (if c = q ! j' then 0 else 1))
                   (LevenshteinDistance p (take j q) + 1))
              (LevenshteinDistance (p @ [c]) (take j' q) + 1)"
    unfolding tk by (rule lev_snoc_snoc)
  then have "int (LevenshteinDistance (p @ [c]) (take j q)) =
          min (min (int (LevenshteinDistance p (take j' q)) + (if c \<noteq> q ! j' then 1 else 0))
                   (int (LevenshteinDistance p (take j q)) + 1))
              (int (LevenshteinDistance (p @ [c]) (take j' q)) + 1)"
    by (simp add: min_def)
  then show ?thesis
    using assms j j'q by (simp only: lev_row_nth diff_Suc_1 less_imp_le)
qed

lemma cell_step_ok:
  assumes "rect tab (Suc (length q))" "0 < i" "i < length tab" "0 < j" "j \<le> length q"
  shows "cell_step i c q j tab =
           Inr (tab[i := (tab ! i)[j :=
             min (min (tab ! (i - 1) ! (j - 1) + (if c \<noteq> q ! (j - 1) then 1 else 0))
                      (tab ! (i - 1) ! j + 1))
                 (tab ! i ! (j - 1) + 1)]])"
proof -
  have i1: "i - 1 < length tab" using assms(3) by simp
  have j1: "j - 1 < length q" "j - 1 < Suc (length q)" "j < Suc (length q)"
    using assms(4,5) by simp_all
  have l: "length (tab ! i) = Suc (length q)" "length (tab ! (i - 1)) = Suc (length q)"
    using rect_nth [OF assms(1)] assms(3) i1 by simp_all
  show ?thesis
    using i1 j1 l assms(3)
    by (simp add: cell_step_def str_get_def tab_get_def tab_set_def)
qed

lemma cell_loop_fill:
  assumes "rect tab (Suc (length q))" "0 < i" "i < length tab"
    and "tab ! (i - 1) = lev_row p q"
    and "0 < j0" "j0 \<le> Suc (length q)"
    and "take j0 (tab ! i) = take j0 (lev_row (p @ [c]) q)"
  shows "cell_loop i c q [j0..<Suc (length q)] tab = Inr (tab[i := lev_row (p @ [c]) q])"
  using assms
proof (induction "Suc (length q) - j0" arbitrary: j0 tab)
  case 0
  then have "j0 = Suc (length q)" by simp
  moreover have "length (tab ! i) = Suc (length q)"
    using "0.prems" by (simp add: rect_nth)
  ultimately have "tab ! i = lev_row (p @ [c]) q"
    using "0.prems"(7) by simp
  then have "tab[i := lev_row (p @ [c]) q] = tab"
    by (metis list_update_id)
  with \<open>j0 = Suc (length q)\<close> show ?case by simp
next
  case (Suc d)
  then have lt: "j0 \<le> length q" by simp
  let ?v = "min (min (tab ! (i - 1) ! (j0 - 1) + (if c \<noteq> q ! (j0 - 1) then 1 else 0))
                      (tab ! (i - 1) ! j0 + 1))
                 (tab ! i ! (j0 - 1) + 1)"
  let ?tab = "tab[i := (tab ! i)[j0 := ?v]]"
  have len: "length (tab ! i) = Suc (length q)"
    using Suc.prems by (simp add: rect_nth)
  have step: "cell_step i c q j0 tab = Inr ?tab"
    using Suc.prems lt by (intro cell_step_ok) auto
  have prev: "tab ! i ! (j0 - 1) = lev_row (p @ [c]) q ! (j0 - 1)"
  proof -
    have "tab ! i ! (j0 - 1) = take j0 (tab ! i) ! (j0 - 1)"
      using Suc.prems(5) by simp
    also have "\<dots> = take j0 (lev_row (p @ [c]) q) ! (j0 - 1)"
      using Suc.prems(7) by simp
    also have "\<dots> = lev_row (p @ [c]) q ! (j0 - 1)"
      using Suc.prems(5) by simp
    finally show ?thesis .
  qed
  have v: "?v = lev_row (p @ [c]) q ! j0"
    using lev_row_snoc_cell [of j0 q p c] Suc.prems(4,5) lt prev by simp
  have rect': "rect ?tab (Suc (length q))"
    using Suc.prems(1) len by (intro rect_update) auto
  have row': "?tab ! (i - 1) = lev_row p q"
    using Suc.prems by simp
  have tk': "take (Suc j0) (?tab ! i) = take (Suc j0) (lev_row (p @ [c]) q)"
  proof -
    have "take (Suc j0) (?tab ! i) = take (Suc j0) ((tab ! i)[j0 := ?v])"
      using Suc.prems(3) by simp
    also have "\<dots> = take j0 (tab ! i) @ [?v]"
      using len lt by (simp add: take_Suc_conv_app_nth)
    also have "\<dots> = take j0 (lev_row (p @ [c]) q) @ [lev_row (p @ [c]) q ! j0]"
      using Suc.prems(7) v by simp
    also have "\<dots> = take (Suc j0) (lev_row (p @ [c]) q)"
      using lt by (simp add: take_Suc_conv_app_nth)
    finally show ?thesis .
  qed
  have "cell_loop i c q [Suc j0..<Suc (length q)] ?tab = Inr (?tab[i := lev_row (p @ [c]) q])"
    using Suc.hyps(2) Suc.prems(2,3) rect' row' tk' lt
    by (intro Suc.hyps(1)) auto
  moreover have "[j0..<Suc (length q)] = j0 # [Suc j0..<Suc (length q)]"
    using lt by (simp add: upt_conv_Cons)
  ultimately show ?case
    using step by simp
qed

lemma fill_row_ok:
  assumes "rect tab (Suc (length q))" "i = Suc (length p)" "i < length tab"
    and "tab ! (i - 1) = lev_row p q"
  shows "fill_row tab i c q = Inr (tab[i := lev_row (p @ [c]) q])"
proof -
  let ?tab = "tab[i := (tab ! i)[0 := int i]]"
  have len: "length (tab ! i) = Suc (length q)"
    using assms by (simp add: rect_nth)
  have set0: "tab_set tab i 0 (int i) = Inr ?tab"
    using assms(3) len by (simp add: tab_set_def)
  have rl: "row_len ?tab i = Inr (Suc (length q))"
    using assms(3) len by (simp add: row_len_def)
  have rect': "rect ?tab (Suc (length q))"
    using assms(1) len by (intro rect_update) auto
  have tk: "take 1 (?tab ! i) = take 1 (lev_row (p @ [c]) q)"
  proof -
    have "take 1 (?tab ! i) = [int i]"
      using assms(3) len by (simp add: take_Suc_conv_app_nth)
    moreover have "take 1 (lev_row (p @ [c]) q) = [int i]"
      using assms(2) lev_row_nth [of 0 q "p @ [c]"]
      by (simp add: take_Suc_conv_app_nth)
    ultimately show ?thesis by simp
  qed
  have "cell_loop i c q [1..<Suc (length q)] ?tab = Inr (?tab[i := lev_row (p @ [c]) q])"
    using assms rect' tk by (intro cell_loop_fill) auto
  then show ?thesis
    unfolding fill_row_def using set0 rl by simp
qed

lemma row0_loop_ok:
  assumes "tab \<noteq> []" "length (tab ! 0) = m" "j0 \<le> m"
  shows "row0_loop [j0..<m] tab = Inr (tab[0 := take j0 (tab ! 0) @ map int [j0..<m]])"
  using assms
proof (induction "m - j0" arbitrary: j0 tab)
  case 0
  then have "j0 = m" by simp
  with "0.prems" show ?case by simp
next
  case (Suc d)
  then have lt: "j0 < m" by simp
  let ?tab = "tab[0 := (tab ! 0)[j0 := int j0]]"
  have s: "tab_set tab 0 j0 (int j0) = Inr ?tab"
    using Suc.prems lt by (simp add: tab_set_def)
  have "row0_loop [Suc j0..<m] ?tab =
          Inr (?tab[0 := take (Suc j0) (?tab ! 0) @ map int [Suc j0..<m]])"
    using Suc.hyps(2) Suc.prems lt by (intro Suc.hyps(1)) auto
  moreover have "take (Suc j0) (?tab ! 0) = take j0 (tab ! 0) @ [int j0]"
    using Suc.prems lt by (simp add: take_Suc_conv_app_nth)
  moreover have "[j0..<m] = j0 # [Suc j0..<m]"
    using lt by (simp add: upt_conv_Cons)
  ultimately show ?case
    using s by simp
qed

lemma lev_row_Nil: "lev_row [] q = map int [0..<Suc (length q)]"
  unfolding lev_row_def by (simp del: upt_Suc)

lemma init_tab_ok:
  assumes "0 \<le> k"
  shows "init_tab (length q) k = Inr ((new_tab (length q) k)[0 := lev_row [] q])"
proof -
  have ne: "new_tab (length q) k \<noteq> []"
    using assms by (simp add: new_tab_def)
  have l0: "length (new_tab (length q) k ! 0) = length q + 1"
    using assms by (simp add: new_tab_def)
  show ?thesis
    unfolding init_tab_def using row0_loop_ok [OF ne l0, of 0]
    by (simp add: lev_row_Nil del: upt_Suc)
qed

section \<open>The walk without the table\<close>

lemma tab_inv_row:
  assumes "tab_inv tab i sofar q" "r < i" "r < length tab"
  shows "tab ! r = lev_row (take r sofar) q"
proof (rule nth_equalityI)
  show "length (tab ! r) = length (lev_row (take r sofar) q)"
    using assms by (simp add: tab_inv_def rect_nth)
next
  fix j assume "j < length (tab ! r)"
  moreover have "length (tab ! r) = Suc (length q)"
    using assms by (simp add: tab_inv_def rect_nth)
  ultimately have "j \<le> length q" by simp
  then show "tab ! r ! j = lev_row (take r sofar) q ! j"
    using assms by (simp add: tab_inv_def lev_row_nth)
qed

lemma tab_invI:
  assumes "i = Suc (length sofar)" "rect tab (Suc (length q))"
    and "\<And>r. r < i \<Longrightarrow> r < length tab \<Longrightarrow> tab ! r = lev_row (take r sofar) q"
  shows "tab_inv tab i sofar q"
  unfolding tab_inv_def using assms by (simp add: lev_row_nth)

lemma tab_inv_rect: "tab_inv tab i sofar q \<Longrightarrow> rect tab (Suc (length q))"
  by (simp add: tab_inv_def)

lemma tab_inv_i: "tab_inv tab i sofar q \<Longrightarrow> i = Suc (length sofar)"
  by (simp add: tab_inv_def)

lemma frame_refl: "frame tab tab i"
  by (simp add: frame_def)

lemma frame_trans: "frame t1 t2 i \<Longrightarrow> frame t2 t3 i \<Longrightarrow> frame t1 t3 i"
  by (simp add: frame_def)

lemma frame_weaken: "frame t1 t2 (Suc i) \<Longrightarrow> frame t1 t2 i"
  by (simp add: frame_def)

lemma frame_update:
  assumes "i < length tab" "length row = length (tab ! i)"
  shows "frame tab (tab[i := row]) i"
proof -
  have "rect (tab[i := row]) m" if "rect tab m" for m
    using that assms by (intro rect_update) (simp_all add: rect_nth)
  then show ?thesis
    by (simp add: frame_def)
qed

lemma tab_inv_frame:
  assumes "tab_inv tab i sofar q" "frame tab tab' i"
  shows "tab_inv tab' i sofar q"
proof (rule tab_invI)
  show "i = Suc (length sofar)" using assms(1) by (rule tab_inv_i)
  show "rect tab' (Suc (length q))"
    using assms by (simp add: frame_def tab_inv_def)
  fix r assume "r < i" "r < length tab'"
  then show "tab' ! r = lev_row (take r sofar) q"
    using assms tab_inv_row [OF assms(1), of r] by (simp add: frame_def)
qed

lemma tab_inv_step:
  assumes "tab_inv tab i sofar q" "i < length tab"
  shows "tab_inv (tab[i := lev_row (sofar @ [c]) q]) (Suc i) (sofar @ [c]) q"
proof (rule tab_invI)
  show "Suc i = Suc (length (sofar @ [c]))"
    using assms(1) by (simp add: tab_inv_def)
  show "rect (tab[i := lev_row (sofar @ [c]) q]) (Suc (length q))"
    using assms(1) by (intro rect_update) (simp_all add: tab_inv_def)
  fix r assume r: "r < Suc i" "r < length (tab[i := lev_row (sofar @ [c]) q])"
  have i: "i = Suc (length sofar)" using assms(1) by (rule tab_inv_i)
  show "tab[i := lev_row (sofar @ [c]) q] ! r = lev_row (take r (sofar @ [c])) q"
  proof (cases "r = i")
    case True
    then show ?thesis using assms(2) i by simp
  next
    case False
    with r have "r < i" by simp
    then show ?thesis
      using tab_inv_row [OF assms(1), of r] r i False by simp
  qed
qed

lemma tab_get_last:
  assumes "tab_inv tab i sofar q" "i < length tab"
  shows "tab_get tab (i - 1) (length q) = Inr (int (LevenshteinDistance sofar q))"
proof -
  have i: "i = Suc (length sofar)" using assms(1) by (rule tab_inv_i)
  have "tab ! (i - 1) = lev_row (take (i - 1) sofar) q"
    using assms i by (intro tab_inv_row) auto
  then have "tab ! (i - 1) = lev_row sofar q" using i by simp
  then show ?thesis
    using assms(2) i by (simp add: tab_get_def lev_row_nth)
qed

lemma fill_row_inv:
  assumes "tab_inv tab i sofar q" "i < length tab"
  shows "fill_row tab i c q = Inr (tab[i := lev_row (sofar @ [c]) q])"
proof -
  have i: "i = Suc (length sofar)" using assms(1) by (rule tab_inv_i)
  have "tab ! (i - 1) = lev_row (take (i - 1) sofar) q"
    using assms i by (intro tab_inv_row) auto
  then have "tab ! (i - 1) = lev_row sofar q" using i by simp
  then show ?thesis
    using assms i by (intro fill_row_ok) (auto simp: tab_inv_def)
qed

lemma row_min_lev_row:
  assumes "i < length tab" "tab ! i = lev_row p q"
  shows "row_min tab i = Inr (row_least p q)"
proof -
  obtain x xs where xs: "lev_row p q = x # xs"
    by (cases "lev_row p q") (auto simp: lev_row_def simp del: upt_Suc)
  have "fold min xs x = Min (set (x # xs))"
    by (simp only: Min.set_eq_fold)
  then show ?thesis
    using assms xs by (simp add: row_min_def row_least_def)
qed

lemma fuzzy_items_yield:
  assumes "tab_get tab (i - 1) (length q) = Inr d" "c = terminator \<and> d \<le> kf i"
    and "fuzzy_items kf tab rest i sofar q pre = Inr (ys, tab')"
  shows "fuzzy_items kf tab ((c, child) # rest) i sofar q pre = Inr ((sofar, d) # ys, tab')"
  using assms by simp

lemma fuzzy_items_descend:
  assumes "tab_get tab (i - 1) (length q) = Inr d" "\<not> (c = terminator \<and> d \<le> kf i)"
    and "fill_row tab i c q = Inr tab1" "row_min tab1 i = Inr m"
    and "(if m \<le> kf i then fuzzy_aux kf tab1 child (i + 1) (sofar @ [c]) q pre
          else Inr ([], tab1)) = Inr (ys, tab2)"
    and "fuzzy_items kf tab2 rest i sofar q pre = Inr (zs, tab3)"
  shows "fuzzy_items kf tab ((c, child) # rest) i sofar q pre = Inr (ys @ zs, tab3)"
proof -
  have no: "(c = terminator \<and> d \<le> kf i) = False"
    using assms(2) by simp
  show ?thesis
  proof (cases "m \<le> kf i")
    case True
    with assms(1,3-) show ?thesis by (simp add: no)
  next
    case False
    with assms(1,3-) show ?thesis by (simp add: no)
  qed
qed

lemma fuzzy_items_refine:
  assumes children: "\<And>c t tab' i' sofar'. (c, t) \<in> set kvs \<Longrightarrow> tab_inv tab' i' sofar' q \<Longrightarrow>
      \<exists>tab''. fuzzy_aux kf tab' t i' sofar' q False = Inr (psearch kf (length tab') q t sofar', tab'')
        \<and> frame tab' tab'' i'"
    and "tab_inv tab i sofar q" "i < length tab"
  shows "\<exists>tab'. fuzzy_items kf tab kvs i sofar q False =
            Inr (psearch_items kf (length tab) q kvs sofar, tab') \<and> frame tab tab' i"
  using assms
proof (induction kvs arbitrary: tab)
  case Nil
  show ?case by (simp add: frame_refl)
next
  case (Cons kv rest)
  obtain c child where kv: "kv = (c, child)" by (cases kv)
  have i: "i = Suc (length sofar)" using Cons.prems(2) by (rule tab_inv_i)
  have d: "tab_get tab (i - 1) (length q) = Inr (int (LevenshteinDistance sofar q))"
    using Cons.prems(2,3) by (rule tab_get_last)
  have rest: "\<exists>tab'. fuzzy_items kf t rest i sofar q False =
            Inr (psearch_items kf (length t) q rest sofar, tab') \<and> frame t tab' i"
    if "tab_inv t i sofar q" "i < length t" for t
  proof (rule Cons.IH [OF _ that])
    fix c' t' tab' i' sofar'
    assume "(c', t') \<in> set rest" and inv': "tab_inv tab' i' sofar' q"
    then have "(c', t') \<in> set (kv # rest)" by simp
    from Cons.prems(1) [OF this inv']
    show "\<exists>tab''. fuzzy_aux kf tab' t' i' sofar' q False =
        Inr (psearch kf (length tab') q t' sofar', tab'') \<and> frame tab' tab'' i'" .
  qed
  show ?case
  proof (cases "c = terminator \<and> int (LevenshteinDistance sofar q) \<le> kf i")
    case True
    from rest [OF Cons.prems(2,3)] obtain tab' where
      "fuzzy_items kf tab rest i sofar q False =
         Inr (psearch_items kf (length tab) q rest sofar, tab')" "frame tab tab' i"
      by blast
    then show ?thesis
      using fuzzy_items_yield [where kf = kf and i = i, OF d True] i kv True by auto
  next
    case False
    let ?tab1 = "tab[i := lev_row (sofar @ [c]) q]"
    have fr: "fill_row tab i c q = Inr ?tab1"
      using Cons.prems(2,3) by (rule fill_row_inv)
    have rm: "row_min ?tab1 i = Inr (row_least (sofar @ [c]) q)"
      using Cons.prems(3) by (intro row_min_lev_row) auto
    have inv1: "tab_inv ?tab1 (Suc i) (sofar @ [c]) q"
      using Cons.prems(2,3) by (rule tab_inv_step)
    have f01: "frame tab ?tab1 i"
      using Cons.prems(2,3) by (intro frame_update) (auto simp: tab_inv_def rect_nth)
    let ?ys = "if row_least (sofar @ [c]) q \<le> kf i
               then psearch kf (length tab) q child (sofar @ [c]) else []"
    have "\<exists>tab2. (if row_least (sofar @ [c]) q \<le> kf i
                  then fuzzy_aux kf ?tab1 child (i + 1) (sofar @ [c]) q False
                  else Inr ([], ?tab1)) = Inr (?ys, tab2)
           \<and> frame ?tab1 tab2 (Suc i)"
    proof (cases "row_least (sofar @ [c]) q \<le> kf i")
      case True
      have "(c, child) \<in> set (kv # rest)" using kv by simp
      from Cons.prems(1) [OF this inv1] True show ?thesis by simp
    next
      case False
      then show ?thesis by (simp add: frame_refl)
    qed
    then obtain tab2 where
      t2: "(if row_least (sofar @ [c]) q \<le> kf i
                  then fuzzy_aux kf ?tab1 child (i + 1) (sofar @ [c]) q False
                  else Inr ([], ?tab1)) = Inr (?ys, tab2)"
      and f12: "frame ?tab1 tab2 (Suc i)"
      by blast
    have f02: "frame tab tab2 i"
      using f01 f12 by (blast intro: frame_trans frame_weaken)
    have inv2: "tab_inv tab2 i sofar q"
      using Cons.prems(2) f02 by (rule tab_inv_frame)
    have len2: "length tab2 = length tab"
      using f02 by (simp add: frame_def)
    from rest [OF inv2] Cons.prems(3) len2 obtain tab3 where
      t3: "fuzzy_items kf tab2 rest i sofar q False =
         Inr (psearch_items kf (length tab) q rest sofar, tab3)" and f23: "frame tab2 tab3 i"
      by auto
    have "frame tab tab3 i"
      using f02 f23 by (rule frame_trans)
    moreover have "fuzzy_items kf tab ((c, child) # rest) i sofar q False =
        Inr (?ys @ psearch_items kf (length tab) q rest sofar, tab3)"
      using d False fr rm t2 t3 by (rule fuzzy_items_descend [where kf = kf and i = i])
    moreover have "psearch_items kf (length tab) q ((c, child) # rest) sofar =
        ?ys @ psearch_items kf (length tab) q rest sofar"
      using False i by auto
    ultimately show ?thesis
      using kv by simp
  qed
qed

lemma fuzzy_aux_refine:
  assumes "tab_inv tab i sofar q"
  shows "\<exists>tab'. fuzzy_aux kf tab t i sofar q False =
            Inr (psearch kf (length tab) q t sofar, tab') \<and> frame tab tab' i"
  using assms
proof (induction t arbitrary: tab i sofar)
  case (Node kvs)
  have i: "i = Suc (length sofar)" using Node.prems by (rule tab_inv_i)
  show ?case
  proof (cases "length tab \<le> i")
    case True
    then show ?thesis using i by (simp add: frame_refl)
  next
    case False
    then have lt: "i < length tab" by simp
    have "\<exists>tab'. fuzzy_items kf tab kvs i sofar q False =
            Inr (psearch_items kf (length tab) q kvs sofar, tab') \<and> frame tab tab' i"
      using Node.prems lt
    proof (rule fuzzy_items_refine [rotated])
      fix c t tab' i' sofar'
      assume "(c, t) \<in> set kvs" "tab_inv tab' i' sofar' q"
      then show "\<exists>tab''. fuzzy_aux kf tab' t i' sofar' q False =
          Inr (psearch kf (length tab') q t sofar', tab'') \<and> frame tab' tab'' i'"
        by (intro Node.IH [of "(c, t)"]) auto
    qed
    then show ?thesis using False i by simp
  qed
qed

section \<open>What the pure walk returns\<close>

lemma psearch_sound:
  "(w, d) \<in> set (psearch kf R q t sofar) \<Longrightarrow>
     d = int (LevenshteinDistance w q) \<and> d \<le> kf (Suc (length w)) \<and> Suc (length w) < R"
  "(w, d) \<in> set (psearch_items kf R q kvs sofar) \<Longrightarrow> Suc (length sofar) < R \<Longrightarrow>
     d = int (LevenshteinDistance w q) \<and> d \<le> kf (Suc (length w)) \<and> Suc (length w) < R"
  by (induction kf R q t sofar and kf R q kvs sofar rule: psearch_psearch_items.induct)
     (auto split: if_splits)

lemma psearch_shape:
  "(w, d) \<in> set (psearch kf R q t sofar) \<Longrightarrow> \<exists>u. w = sofar @ u"
  "(w, d) \<in> set (psearch_items kf R q kvs sofar) \<Longrightarrow>
     (w = sofar \<and> terminator \<in> fst ` set kvs) \<or> (\<exists>c u. c \<in> fst ` set kvs \<and> w = sofar @ c # u)"
proof (induction kf R q t sofar and kf R q kvs sofar rule: psearch_psearch_items.induct)
  case (1 kf R q kvs sofar)
  then show ?case by (auto split: if_splits)
next
  case (2 kf R q sofar)
  then show ?case by simp
next
  case (3 kf R q c child rest sofar)
  show ?case
  proof (cases "c = terminator \<and> int (LevenshteinDistance sofar q) \<le> kf (Suc (length sofar))")
    case True
    with 3 show ?thesis by auto
  next
    case False
    from "3.prems" False consider
      (child) "row_least (sofar @ [c]) q \<le> kf (Suc (length sofar))"
        "(w, d) \<in> set (psearch kf R q child (sofar @ [c]))"
      | (rest) "(w, d) \<in> set (psearch_items kf R q rest sofar)"
      by (auto split: if_splits)
    then show ?thesis
    proof cases
      case child
      from "3.IH"(2) [OF False child] obtain u where "w = (sofar @ [c]) @ u" by blast
      then show ?thesis by auto
    next
      case rest
      from "3.IH"(3) [OF False rest] show ?thesis by auto
    qed
  qed
qed

lemma lev_snoc_step:
  "j \<le> length q \<Longrightarrow>
     \<exists>j' \<le> j. LevenshteinDistance p (take j' q) \<le> LevenshteinDistance (p @ [c]) (take j q)"
proof (induction j)
  case 0
  have "LevenshteinDistance p (take 0 q) \<le> LevenshteinDistance (p @ [c]) (take 0 q)"
    by simp
  then show ?case by blast
next
  case (Suc j)
  then have jq: "j < length q" and jle: "j \<le> length q" by simp_all
  from Suc.IH [OF jle] obtain j' where
    j': "j' \<le> j" "LevenshteinDistance p (take j' q) \<le> LevenshteinDistance (p @ [c]) (take j q)"
    by blast
  let ?s = "LevenshteinDistance p (take j q) + (if c = q ! j then 0 else 1)"
  let ?i = "LevenshteinDistance p (take (Suc j) q) + 1"
  let ?d = "LevenshteinDistance (p @ [c]) (take j q) + 1"
  have eq: "LevenshteinDistance (p @ [c]) (take (Suc j) q) = min (min ?s ?i) ?d"
    using jq lev_snoc_snoc [of p c "take j q" "q ! j"] by (simp add: take_Suc_conv_app_nth)
  then consider "LevenshteinDistance (p @ [c]) (take (Suc j) q) = ?s"
    | "LevenshteinDistance (p @ [c]) (take (Suc j) q) = ?i"
    | "LevenshteinDistance (p @ [c]) (take (Suc j) q) = ?d"
    by (auto simp: min_def split: if_splits)
  then show ?case
  proof cases
    case 1
    then have "LevenshteinDistance p (take j q) \<le> LevenshteinDistance (p @ [c]) (take (Suc j) q)"
      by simp
    then show ?thesis using le_SucI [of j j] by blast
  next
    case 2
    then have "LevenshteinDistance p (take (Suc j) q)
        \<le> LevenshteinDistance (p @ [c]) (take (Suc j) q)"
      by simp
    then show ?thesis by blast
  next
    case 3
    with j' have "LevenshteinDistance p (take j' q)
        \<le> LevenshteinDistance (p @ [c]) (take (Suc j) q)" "j' \<le> Suc j"
      by simp_all
    then show ?thesis by blast
  qed
qed

lemma lev_append_step:
  "j \<le> length q \<Longrightarrow>
     \<exists>j' \<le> length q. LevenshteinDistance p (take j' q) \<le> LevenshteinDistance (p @ u) (take j q)"
proof (induction u arbitrary: j rule: rev_induct)
  case Nil
  then show ?case by auto
next
  case (snoc c u)
  from lev_snoc_step [OF snoc.prems, of "p @ u" c] obtain j1 where
    j1: "j1 \<le> j" "LevenshteinDistance (p @ u) (take j1 q)
           \<le> LevenshteinDistance ((p @ u) @ [c]) (take j q)"
    by blast
  with snoc.prems have "j1 \<le> length q" by simp
  from snoc.IH [OF this] obtain j' where
    "j' \<le> length q" "LevenshteinDistance p (take j' q) \<le> LevenshteinDistance (p @ u) (take j1 q)"
    by blast
  with j1 have "j' \<le> length q \<and>
      LevenshteinDistance p (take j' q) \<le> LevenshteinDistance (p @ u @ [c]) (take j q)"
    by simp
  then show ?case by blast
qed

lemma row_least_le_cell:
  "j \<le> length q \<Longrightarrow> row_least p q \<le> int (LevenshteinDistance p (take j q))"
proof -
  assume j: "j \<le> length q"
  then have "lev_row p q ! j \<in> set (lev_row p q)"
    by (intro nth_mem) simp
  then have "Min (set (lev_row p q)) \<le> lev_row p q ! j"
    by (intro Min_le) simp_all
  then show ?thesis using j by (simp add: row_least_def lev_row_nth)
qed

lemma row_least_le_extension:
  "row_least p q \<le> int (LevenshteinDistance (p @ u) q)"
proof -
  from lev_append_step [of "length q" q p u] obtain j' where
    "j' \<le> length q" "LevenshteinDistance p (take j' q) \<le> LevenshteinDistance (p @ u) q"
    by auto
  with row_least_le_cell [of j' q p] show ?thesis by simp
qed

lemma within_Un: "within k R q sofar (A \<union> B) = within k R q sofar A \<union> within k R q sofar B"
  by (auto simp: within_def)

lemma within_empty: "within k R q sofar {} = {}"
  by (simp add: within_def)

lemma within_Cons: "within k R q sofar ((#) c ` W) = within k R q (sofar @ [c]) W"
  by (auto simp: within_def)

lemma within_short: "R \<le> Suc (length sofar) \<Longrightarrow> within k R q sofar W = {}"
  by (auto simp: within_def)

lemma within_Nil:
  "Suc (length sofar) < R \<Longrightarrow> within k R q sofar {[]} =
     (if int (LevenshteinDistance sofar q) \<le> k then {(sofar, int (LevenshteinDistance sofar q))} else {})"
  by (auto simp: within_def)

lemma within_pruned:
  assumes "\<not> row_least p q \<le> k"
  shows "within k R q p W = {}"
proof -
  have "\<not> int (LevenshteinDistance (p @ u) q) \<le> k" for u
    using row_least_le_extension [of p q u] assms by linarith
  then show ?thesis by (simp add: within_def)
qed

lemma words_Cons:
  "words (Node ((c, t) # rest)) =
     (if c = terminator then {[]} else (#) c ` words t) \<union> words (Node rest)"
  by simp

lemma words_Nil: "words (Node []) = {}"
  by simp

lemma psearch_Nil: "psearch kf R q (Node []) sofar = []"
  by simp

declare words.simps [simp del]

lemma psearch_complete:
  "wf_trie t \<Longrightarrow> set (psearch (\<lambda>_. k) R q t sofar) = within k R q sofar (words t)"
  "\<forall>(c, t) \<in> set kvs. (c = terminator \<longrightarrow> t = Node []) \<and> wf_trie t \<Longrightarrow>
     Suc (length sofar) < R \<Longrightarrow>
     set (psearch_items (\<lambda>_. k) R q kvs sofar) = within k R q sofar (words (Node kvs))"
proof (induction "\<lambda>_ :: nat. k" R q t sofar and "\<lambda>_ :: nat. k" R q kvs sofar
    rule: psearch_psearch_items.induct)
  case (1 R q kvs sofar)
  show ?case
  proof (cases "R \<le> Suc (length sofar)")
    case True
    then show ?thesis by (simp add: within_short)
  next
    case False
    with 1 show ?thesis by simp
  qed
next
  case (2 R q sofar)
  show ?case by (simp add: within_empty words_Nil)
next
  case (3 R q c child rest sofar)
  have wf_rest: "\<forall>(c, t) \<in> set rest. (c = terminator \<longrightarrow> t = Node []) \<and> wf_trie t"
    using "3.prems"(1) by simp
  have wf_child: "wf_trie child" and leaf: "c = terminator \<Longrightarrow> child = Node []"
    using "3.prems"(1) by simp_all
  show ?case
  proof (cases "c = terminator \<and> int (LevenshteinDistance sofar q) \<le> k")
    case True
    from "3.hyps"(1) [OF True wf_rest "3.prems"(2)]
    have ih: "set (psearch_items (\<lambda>_. k) R q rest sofar) = within k R q sofar (words (Node rest))" .
    have w1: "within k R q sofar {[]} = {(sofar, int (LevenshteinDistance sofar q))}"
      using True "3.prems"(2) by (simp add: within_Nil)
    have ws: "words (Node ((c, child) # rest)) = {[]} \<union> words (Node rest)"
      using True by (simp add: words_Cons)
    have "set (psearch_items (\<lambda>_. k) R q ((c, child) # rest) sofar) =
        {(sofar, int (LevenshteinDistance sofar q))} \<union> set (psearch_items (\<lambda>_. k) R q rest sofar)"
      using True by simp
    also have "\<dots> = within k R q sofar {[]} \<union> within k R q sofar (words (Node rest))"
      by (simp only: w1 ih)
    also have "\<dots> = within k R q sofar (words (Node ((c, child) # rest)))"
      by (simp only: ws within_Un)
    finally show ?thesis .
  next
    case False
    from "3.hyps"(3) [OF False wf_rest "3.prems"(2)]
    have rest: "set (psearch_items (\<lambda>_. k) R q rest sofar) = within k R q sofar (words (Node rest))" .
    have first: "set (if row_least (sofar @ [c]) q \<le> k
                      then psearch (\<lambda>_. k) R q child (sofar @ [c]) else []) =
                 within k R q sofar (if c = terminator then {[]} else (#) c ` words child)"
    proof (cases "c = terminator")
      case True
      with False have "\<not> int (LevenshteinDistance sofar q) \<le> k" by simp
      then show ?thesis
        using True leaf "3.prems"(2) by (simp add: within_Nil)
    next
      case nt: False
      show ?thesis
      proof (cases "row_least (sofar @ [c]) q \<le> k")
        case True
        from "3.hyps"(2) [OF False True wf_child] show ?thesis
          using nt True by (simp add: within_Cons)
      next
        case False
        then show ?thesis using nt by (simp add: within_Cons within_pruned)
      qed
    qed
    have "psearch_items (\<lambda>_. k) R q ((c, child) # rest) sofar =
            (if row_least (sofar @ [c]) q \<le> k
             then psearch (\<lambda>_. k) R q child (sofar @ [c]) else [])
            @ psearch_items (\<lambda>_. k) R q rest sofar"
      using False by auto
    then show ?thesis
      using first rest by (simp only: words_Cons within_Un set_append)
  qed
qed

lemma psearch_distinct:
  "wf_trie t \<Longrightarrow> distinct (map fst (psearch kf R q t sofar))"
  "distinct (map fst kvs) \<Longrightarrow> \<forall>(c, t) \<in> set kvs. wf_trie t \<Longrightarrow>
     distinct (map fst (psearch_items kf R q kvs sofar))"
proof (induction kf R q t sofar and kf R q kvs sofar rule: psearch_psearch_items.induct)
  case (1 kf R q kvs sofar)
  then show ?case by auto
next
  case (2 kf R q sofar)
  show ?case by simp
next
  case (3 kf R q c child rest sofar)
  have d_rest: "distinct (map fst rest)" and w_rest: "\<forall>(c, t) \<in> set rest. wf_trie t"
    and fresh: "c \<notin> fst ` set rest" and w_child: "wf_trie child"
    using "3.prems" by auto
  have shape_rest: "w \<noteq> sofar \<or> c \<noteq> terminator" "\<And>u. w \<noteq> sofar @ c # u"
    if "(w, d) \<in> set (psearch_items kf R q rest sofar)" for w d
    using psearch_shape(2) [OF that] fresh by auto
  show ?case
  proof (cases "c = terminator \<and> int (LevenshteinDistance sofar q) \<le> kf (Suc (length sofar))")
    case True
    from "3.IH"(1) [OF True d_rest w_rest]
    have "distinct (map fst (psearch_items kf R q rest sofar))" .
    moreover have "sofar \<notin> fst ` set (psearch_items kf R q rest sofar)"
      using shape_rest(1) True by fastforce
    ultimately show ?thesis using True by simp
  next
    case False
    from "3.IH"(3) [OF False d_rest w_rest]
    have dr: "distinct (map fst (psearch_items kf R q rest sofar))" .
    show ?thesis
    proof (cases "row_least (sofar @ [c]) q \<le> kf (Suc (length sofar))")
      case True
      from "3.IH"(2) [OF False True w_child]
      have dc: "distinct (map fst (psearch kf R q child (sofar @ [c])))" .
      have "fst ` set (psearch kf R q child (sofar @ [c])) \<inter>
            fst ` set (psearch_items kf R q rest sofar) = {}"
      proof (rule ccontr)
        assume "\<not> ?thesis"
        then obtain w d d' where
          a: "(w, d) \<in> set (psearch kf R q child (sofar @ [c]))"
          and b: "(w, d') \<in> set (psearch_items kf R q rest sofar)"
          by fastforce
        from psearch_shape(1) [OF a] obtain u where "w = sofar @ c # u" by auto
        with shape_rest(2) [OF b] show False by blast
      qed
      with dc dr show ?thesis using False True by auto
    next
      case nd: False
      with dr False show ?thesis by auto
    qed
  qed
qed

section \<open>Tries built by insertion\<close>

lemma wf_trie_map_of:
  "wf_trie (Node kvs) \<longleftrightarrow>
     distinct (map fst kvs) \<and>
     (\<forall>c t. map_of kvs c = Some t \<longrightarrow> (c = terminator \<longrightarrow> t = Node []) \<and> wf_trie t)"
  by (auto dest: map_of_SomeD)

lemma wf_trie_Nil: "wf_trie (Node [])"
  by simp

declare wf_trie.simps [simp del]

lemma Nil_in_words:
  assumes "distinct (map fst kvs)"
  shows "[] \<in> words (Node kvs) \<longleftrightarrow> map_of kvs terminator \<noteq> None"
proof -
  have "[] \<in> words (Node kvs) \<longleftrightarrow> (\<exists>t. (terminator, t) \<in> set kvs)"
    by (force simp: words.simps split: if_splits)
  also have "\<dots> \<longleftrightarrow> (\<exists>t. map_of kvs terminator = Some t)"
    using assms by simp
  finally show ?thesis by simp
qed

lemma Cons_in_words:
  assumes "distinct (map fst kvs)"
  shows "c # u \<in> words (Node kvs) \<longleftrightarrow>
           c \<noteq> terminator \<and> (\<exists>t. map_of kvs c = Some t \<and> u \<in> words t)"
proof -
  have "c # u \<in> words (Node kvs) \<longleftrightarrow> c \<noteq> terminator \<and> (\<exists>t. (c, t) \<in> set kvs \<and> u \<in> words t)"
    by (force simp: words.simps split: if_splits)
  also have "\<dots> \<longleftrightarrow> c \<noteq> terminator \<and> (\<exists>t. map_of kvs c = Some t \<and> u \<in> words t)"
    using assms by simp
  finally show ?thesis .
qed

lemma wf_trie_update:
  assumes "wf_trie (Node kvs)" "wf_trie t" "c = terminator \<longrightarrow> t = Node []"
  shows "wf_trie (Node (AList.update c t kvs))"
proof -
  from assms(1) have d: "distinct (map fst kvs)"
    and old: "\<And>c' t'. map_of kvs c' = Some t' \<Longrightarrow> (c' = terminator \<longrightarrow> t' = Node []) \<and> wf_trie t'"
    by (simp_all add: wf_trie_map_of)
  have "(c' = terminator \<longrightarrow> t' = Node []) \<and> wf_trie t'"
    if "map_of (AList.update c t kvs) c' = Some t'" for c' t'
  proof (cases "c' = c")
    case True
    with that have "t' = t" by (simp add: update_conv')
    with True assms(2,3) show ?thesis by simp
  next
    case False
    with that have "map_of kvs c' = Some t'" by (simp add: update_conv')
    then show ?thesis by (rule old)
  qed
  then show ?thesis
    unfolding wf_trie_map_of using distinct_update [OF d] by blast
qed

lemma words_update_terminator:
  assumes "distinct (map fst kvs)"
  shows "words (Node (AList.update terminator t kvs)) = insert [] (words (Node kvs))"
proof (rule set_eqI)
  fix x
  have d: "distinct (map fst (AList.update terminator t kvs))"
    using assms by (rule distinct_update)
  show "x \<in> words (Node (AList.update terminator t kvs)) \<longleftrightarrow> x \<in> insert [] (words (Node kvs))"
  proof (cases x)
    case Nil
    then show ?thesis by (simp add: Nil_in_words [OF d] update_conv')
  next
    case (Cons c' u)
    then show ?thesis
      by (simp add: Cons_in_words [OF d] Cons_in_words [OF assms] update_conv')
  qed
qed

lemma words_update:
  assumes "distinct (map fst kvs)" "c \<noteq> terminator"
    and "words t = insert w {u. \<exists>t'. map_of kvs c = Some t' \<and> u \<in> words t'}"
  shows "words (Node (AList.update c t kvs)) = insert (c # w) (words (Node kvs))"
proof (rule set_eqI)
  fix x
  have d: "distinct (map fst (AList.update c t kvs))"
    using assms(1) by (rule distinct_update)
  show "x \<in> words (Node (AList.update c t kvs)) \<longleftrightarrow> x \<in> insert (c # w) (words (Node kvs))"
  proof (cases x)
    case Nil
    then show ?thesis
      using assms(2) by (simp add: Nil_in_words [OF d] Nil_in_words [OF assms(1)] update_conv')
  next
    case (Cons c' u)
    show ?thesis
    proof (cases "c' = c")
      case True
      then show ?thesis
        using Cons assms(2,3)
        by (simp add: Cons_in_words [OF d] Cons_in_words [OF assms(1)] update_conv')
    next
      case False
      then show ?thesis
        using Cons
        by (simp add: Cons_in_words [OF d] Cons_in_words [OF assms(1)] update_conv')
    qed
  qed
qed

lemma insert_loop_wf_words:
  assumes "terminator \<notin> set w" "wf_trie t"
  shows "wf_trie (insert_loop (w @ [terminator]) t) \<and>
         words (insert_loop (w @ [terminator]) t) = insert w (words t)"
  using assms
proof (induction w arbitrary: t)
  case Nil
  obtain kvs where t: "t = Node kvs" by (cases t)
  from Nil.prems t have wf: "distinct (map fst kvs)"
    "\<And>c t. map_of kvs c = Some t \<Longrightarrow> (c = terminator \<longrightarrow> t = Node []) \<and> wf_trie t"
    by (simp_all add: wf_trie_map_of)
  have child: "(case map_of kvs terminator of None \<Rightarrow> Node [] | Some ch \<Rightarrow> ch) = Node []"
  proof (cases "map_of kvs terminator")
    case None
    then show ?thesis by simp
  next
    case (Some ch)
    with wf(2) [OF Some] show ?thesis by simp
  qed
  have eq: "insert_loop ([] @ [terminator]) t = Node (AList.update terminator (Node []) kvs)"
    using t child by simp
  have "wf_trie (Node (AList.update terminator (Node []) kvs))"
    using Nil.prems(2) t by (intro wf_trie_update) (simp_all add: wf_trie_Nil)
  moreover have "words (Node (AList.update terminator (Node []) kvs)) = insert [] (words (Node kvs))"
    using wf(1) by (rule words_update_terminator)
  ultimately show ?case using eq t by simp
next
  case (Cons c w)
  obtain kvs where t: "t = Node kvs" by (cases t)
  from Cons.prems have c: "c \<noteq> terminator" and w: "terminator \<notin> set w" by auto
  from Cons.prems t have wf: "distinct (map fst kvs)"
    "\<And>c t. map_of kvs c = Some t \<Longrightarrow> (c = terminator \<longrightarrow> t = Node []) \<and> wf_trie t"
    by (simp_all add: wf_trie_map_of)
  define child where "child = (case map_of kvs c of None \<Rightarrow> Node [] | Some ch \<Rightarrow> ch)"
  define new where "new = insert_loop (w @ [terminator]) child"
  have wfc: "wf_trie child"
  proof (cases "map_of kvs c")
    case None
    then show ?thesis by (simp add: child_def wf_trie_Nil)
  next
    case (Some ch)
    with wf(2) [OF Some] show ?thesis by (simp add: child_def)
  qed
  have wc: "words child = {u. \<exists>t. map_of kvs c = Some t \<and> u \<in> words t}"
    by (cases "map_of kvs c") (simp_all add: child_def words_Nil)
  from Cons.IH [OF w wfc] have new: "wf_trie new" "words new = insert w (words child)"
    by (simp_all add: new_def)
  have eq: "insert_loop ((c # w) @ [terminator]) t = Node (AList.update c new kvs)"
    using t by (simp add: new_def child_def)
  have "wf_trie (Node (AList.update c new kvs))"
    using Cons.prems(2) t new(1) c by (intro wf_trie_update) simp_all
  moreover have "words (Node (AList.update c new kvs)) = insert (c # w) (words (Node kvs))"
    using wf(1) c new(2) wc by (intro words_update) simp_all
  ultimately show ?case using eq t by simp
qed

lemma insert_word_wf:
  "terminator \<notin> set w \<Longrightarrow> wf_trie t \<Longrightarrow> wf_trie (insert_word w t)"
  by (simp add: insert_word_def insert_loop_wf_words)

lemma insert_word_words:
  "terminator \<notin> set w \<Longrightarrow> wf_trie t \<Longrightarrow> words (insert_word w t) = insert w (words t)"
  by (simp add: insert_word_def insert_loop_wf_words)

lemma foldl_insert_word:
  assumes "\<forall>w \<in> set ws. terminator \<notin> set w" "wf_trie t"
  shows "wf_trie (foldl (\<lambda>t w. insert_word w t) t ws) \<and>
         words (foldl (\<lambda>t w. insert_word w t) t ws) = words t \<union> set ws"
  using assms
  by (induction ws arbitrary: t) (auto simp: insert_word_wf insert_word_words)

lemma build_wf: "\<forall>w \<in> set ws. terminator \<notin> set w \<Longrightarrow> wf_trie (build ws)"
  using foldl_insert_word [of ws "Node []"]
  by (simp add: build_def empty_trie_def wf_trie_Nil)

lemma build_words: "\<forall>w \<in> set ws. terminator \<notin> set w \<Longrightarrow> words (build ws) = set ws"
  using foldl_insert_word [of ws "Node []"]
  by (simp add: build_def empty_trie_def wf_trie_Nil words_Nil)

section \<open>The forward/backward walk without the table\<close>

lemma trie_fuzzy_items_yield:
  assumes "tab_get tab (i - 1) (length q) = Inr d" "c = terminator \<and> d \<le> k"
    and "trie_fuzzy_items subk k tab rest i sofar subq q ph = Inr (ys, tab')"
  shows "trie_fuzzy_items subk k tab ((c, child) # rest) i sofar subq q ph
           = Inr ((sofar, d) # ys, tab')"
  using assms by simp

lemma trie_fuzzy_items_switch:
  assumes "tab_get tab (i - 1) (length q) = Inr d" "\<not> (c = terminator \<and> d \<le> k)"
    and "fill_row tab i c q = Inr tab1" "ph = 1" "tab_get tab1 i (length subq) = Inr v"
    and "v \<le> subk"
    and "trie_fuzzy_aux k k tab1 child (i + 1) (sofar @ [c]) subq q 2 = Inr (ys, tab2)"
    and "trie_fuzzy_items subk k tab2 rest i sofar subq q ph = Inr (zs, tab3)"
  shows "trie_fuzzy_items subk k tab ((c, child) # rest) i sofar subq q ph = Inr (ys @ zs, tab3)"
proof -
  have no: "(c = terminator \<and> d \<le> k) = False"
    using assms(2) by simp
  show ?thesis
    using assms(1,3-) by (simp add: no)
qed

lemma trie_fuzzy_items_stay:
  assumes "tab_get tab (i - 1) (length q) = Inr d" "\<not> (c = terminator \<and> d \<le> k)"
    and "fill_row tab i c q = Inr tab1"
    and "ph = 1 \<Longrightarrow> \<exists>v. tab_get tab1 i (length subq) = Inr v \<and> \<not> v \<le> subk"
    and "row_min tab1 i = Inr m"
    and "(if m \<le> subk then trie_fuzzy_aux subk k tab1 child (i + 1) (sofar @ [c]) subq q ph
          else Inr ([], tab1)) = Inr (ys, tab2)"
    and "trie_fuzzy_items subk k tab2 rest i sofar subq q ph = Inr (zs, tab3)"
  shows "trie_fuzzy_items subk k tab ((c, child) # rest) i sofar subq q ph = Inr (ys @ zs, tab3)"
proof -
  have no: "(c = terminator \<and> d \<le> k) = False"
    using assms(2) by simp
  show ?thesis
  proof (cases "ph = 1")
    case True
    from assms(4) [OF True] obtain v where
      v: "tab_get tab1 i (length subq) = Inr v" "(v \<le> subk) = False"
      by auto
    show ?thesis
    proof (cases "m \<le> subk")
      case le: True
      with assms(1,3,5-) True v show ?thesis by (simp add: no)
    next
      case gt: False
      with assms(1,3,5-) True v show ?thesis by (simp add: no)
    qed
  next
    case False
    show ?thesis
    proof (cases "m \<le> subk")
      case le: True
      with assms(1,3,5-) False show ?thesis by (simp add: no)
    next
      case gt: False
      with assms(1,3,5-) False show ?thesis by (simp add: no)
    qed
  qed
qed

lemma tab_get_col:
  assumes "i < length tab" "tab ! i = lev_row p q" "j \<le> length q"
  shows "tab_get tab i j = Inr (lev_row p q ! j)"
  using assms by (simp add: tab_get_def)

lemma trie_fuzzy_items_refine:
  assumes children: "\<And>c t tab' i' sofar' subk' ph'. (c, t) \<in> set kvs \<Longrightarrow> tab_inv tab' i' sofar' q \<Longrightarrow>
      \<exists>tab''. trie_fuzzy_aux subk' k tab' t i' sofar' subq q ph' =
          Inr (fb_psearch subk' k (length tab') subq q t sofar' ph', tab'')
        \<and> frame tab' tab'' i'"
    and "tab_inv tab i sofar q" "i < length tab" "length subq \<le> length q"
  shows "\<exists>tab'. trie_fuzzy_items subk k tab kvs i sofar subq q ph =
            Inr (fb_psearch_items subk k (length tab) subq q kvs sofar ph, tab') \<and> frame tab tab' i"
  using assms
proof (induction kvs arbitrary: tab)
  case Nil
  show ?case by (simp add: frame_refl)
next
  case (Cons kv rest)
  obtain c child where kv: "kv = (c, child)" by (cases kv)
  have i: "i = Suc (length sofar)" using Cons.prems(2) by (rule tab_inv_i)
  have d: "tab_get tab (i - 1) (length q) = Inr (int (LevenshteinDistance sofar q))"
    using Cons.prems(2,3) by (rule tab_get_last)
  have rest: "\<exists>tab'. trie_fuzzy_items subk k t rest i sofar subq q ph =
            Inr (fb_psearch_items subk k (length t) subq q rest sofar ph, tab') \<and> frame t tab' i"
    if "tab_inv t i sofar q" "i < length t" for t
  proof (rule Cons.IH [OF _ that Cons.prems(4)])
    fix c' t' tab' i' sofar' subk' ph'
    assume "(c', t') \<in> set rest" and inv': "tab_inv tab' i' sofar' q"
    then have "(c', t') \<in> set (kv # rest)" by simp
    from Cons.prems(1) [OF this inv']
    show "\<exists>tab''. trie_fuzzy_aux subk' k tab' t' i' sofar' subq q ph' =
        Inr (fb_psearch subk' k (length tab') subq q t' sofar' ph', tab'') \<and> frame tab' tab'' i'" .
  qed
  have mem: "(c, child) \<in> set (kv # rest)" using kv by simp
  show ?case
  proof (cases "c = terminator \<and> int (LevenshteinDistance sofar q) \<le> k")
    case True
    from rest [OF Cons.prems(2,3)] obtain tab' where
      "trie_fuzzy_items subk k tab rest i sofar subq q ph =
         Inr (fb_psearch_items subk k (length tab) subq q rest sofar ph, tab')" "frame tab tab' i"
      by blast
    then show ?thesis
      using trie_fuzzy_items_yield [where k = k and i = i, OF d True] i kv True by auto
  next
    case False
    let ?tab1 = "tab[i := lev_row (sofar @ [c]) q]"
    let ?col = "lev_row (sofar @ [c]) q ! length subq"
    have fr: "fill_row tab i c q = Inr ?tab1"
      using Cons.prems(2,3) by (rule fill_row_inv)
    have rm: "row_min ?tab1 i = Inr (row_least (sofar @ [c]) q)"
      using Cons.prems(3) by (intro row_min_lev_row) auto
    have col: "tab_get ?tab1 i (length subq) = Inr ?col"
      using Cons.prems(3,4) by (intro tab_get_col) auto
    have inv1: "tab_inv ?tab1 (Suc i) (sofar @ [c]) q"
      using Cons.prems(2,3) by (rule tab_inv_step)
    have f01: "frame tab ?tab1 i"
      using Cons.prems(2,3) by (intro frame_update) (auto simp: tab_inv_def rect_nth)
    let ?ys = "if ph = 1 \<and> ?col \<le> subk
               then fb_psearch k k (length tab) subq q child (sofar @ [c]) 2
               else if row_least (sofar @ [c]) q \<le> subk
               then fb_psearch subk k (length tab) subq q child (sofar @ [c]) ph
               else []"
    have unfold: "fb_psearch_items subk k (length tab) subq q ((c, child) # rest) sofar ph =
        ?ys @ fb_psearch_items subk k (length tab) subq q rest sofar ph"
      using False by auto
    have finish: ?thesis
      if t2: "frame ?tab1 tab2 (Suc i)"
        and step: "\<And>zs tab3. trie_fuzzy_items subk k tab2 rest i sofar subq q ph = Inr (zs, tab3) \<Longrightarrow>
           trie_fuzzy_items subk k tab ((c, child) # rest) i sofar subq q ph = Inr (?ys @ zs, tab3)"
      for tab2
    proof -
      have f02: "frame tab tab2 i"
        using f01 t2 by (blast intro: frame_trans frame_weaken)
      have inv2: "tab_inv tab2 i sofar q"
        using Cons.prems(2) f02 by (rule tab_inv_frame)
      have len2: "length tab2 = length tab"
        using f02 by (simp add: frame_def)
      from rest [OF inv2] Cons.prems(3) len2 obtain tab3 where
        t3: "trie_fuzzy_items subk k tab2 rest i sofar subq q ph =
           Inr (fb_psearch_items subk k (length tab) subq q rest sofar ph, tab3)"
        and f23: "frame tab2 tab3 i"
        by auto
      have "frame tab tab3 i"
        using f02 f23 by (rule frame_trans)
      with step [OF t3] unfold kv show ?thesis by simp
    qed
    show ?thesis
    proof (cases "ph = 1 \<and> ?col \<le> subk")
      case True
      from Cons.prems(1) [OF mem inv1, of k 2] obtain tab2 where
        c2: "trie_fuzzy_aux k k ?tab1 child (Suc i) (sofar @ [c]) subq q 2 =
          Inr (fb_psearch k k (length tab) subq q child (sofar @ [c]) 2, tab2)"
        and f12: "frame ?tab1 tab2 (Suc i)"
        by auto
      show ?thesis
      proof (rule finish [OF f12])
        fix zs tab3
        assume "trie_fuzzy_items subk k tab2 rest i sofar subq q ph = Inr (zs, tab3)"
        with d False fr col True c2
        show "trie_fuzzy_items subk k tab ((c, child) # rest) i sofar subq q ph = Inr (?ys @ zs, tab3)"
          using trie_fuzzy_items_switch [where k = k and i = i and subk = subk and c = c
              and tab = tab and ?tab1.0 = ?tab1 and ph = ph and ?tab2.0 = tab2 and zs = zs
              and ?tab3.0 = tab3 and d = "int (LevenshteinDistance sofar q)" and v = ?col
              and sofar = sofar and q = q and subq = subq and child = child and rest = rest
              and ys = "fb_psearch k k (length tab) subq q child (sofar @ [c]) 2"]
          by simp
      qed
    next
      case nsw: False
      let ?zs = "if row_least (sofar @ [c]) q \<le> subk
               then fb_psearch subk k (length tab) subq q child (sofar @ [c]) ph
               else []"
      have "\<exists>tab2. (if row_least (sofar @ [c]) q \<le> subk
                  then trie_fuzzy_aux subk k ?tab1 child (i + 1) (sofar @ [c]) subq q ph
                  else Inr ([], ?tab1)) = Inr (?zs, tab2)
           \<and> frame ?tab1 tab2 (Suc i)"
      proof (cases "row_least (sofar @ [c]) q \<le> subk")
        case True
        from Cons.prems(1) [OF mem inv1, of subk ph] True show ?thesis by simp
      next
        case False
        then show ?thesis by (simp add: frame_refl)
      qed
      then obtain tab2 where
        c2: "(if row_least (sofar @ [c]) q \<le> subk
                  then trie_fuzzy_aux subk k ?tab1 child (i + 1) (sofar @ [c]) subq q ph
                  else Inr ([], ?tab1)) = Inr (?zs, tab2)"
        and f12: "frame ?tab1 tab2 (Suc i)"
        by blast
      have ncol: "ph = 1 \<Longrightarrow> \<exists>v. tab_get ?tab1 i (length subq) = Inr v \<and> \<not> v \<le> subk"
        using col nsw by simp
      have ys: "?ys = ?zs" using nsw by auto
      show ?thesis
      proof (rule finish [OF f12])
        fix zs tab3
        assume t3: "trie_fuzzy_items subk k tab2 rest i sofar subq q ph = Inr (zs, tab3)"
        have "trie_fuzzy_items subk k tab ((c, child) # rest) i sofar subq q ph = Inr (?zs @ zs, tab3)"
          using d False fr ncol rm c2 t3
          by (rule trie_fuzzy_items_stay [where k = k and i = i and subk = subk])
        then show "trie_fuzzy_items subk k tab ((c, child) # rest) i sofar subq q ph = Inr (?ys @ zs, tab3)"
          by (simp only: ys)
      qed
    qed
  qed
qed

lemma trie_fuzzy_aux_refine:
  assumes "tab_inv tab i sofar q" "length subq \<le> length q"
  shows "\<exists>tab'. trie_fuzzy_aux subk k tab t i sofar subq q ph =
            Inr (fb_psearch subk k (length tab) subq q t sofar ph, tab') \<and> frame tab tab' i"
  using assms(1)
proof (induction t arbitrary: tab i sofar subk ph)
  case (Node kvs)
  have i: "i = Suc (length sofar)" using Node.prems by (rule tab_inv_i)
  show ?case
  proof (cases "length tab \<le> i")
    case True
    then show ?thesis using i by (simp add: frame_refl)
  next
    case False
    then have lt: "i < length tab" by simp
    have "\<exists>tab'. trie_fuzzy_items subk k tab (sort_key fst kvs) i sofar subq q ph =
            Inr (fb_psearch_items subk k (length tab) subq q (sort_key fst kvs) sofar ph, tab')
          \<and> frame tab tab' i"
      using Node.prems lt assms(2)
    proof (rule trie_fuzzy_items_refine [rotated])
      fix c t tab' i' sofar' subk' ph'
      assume "(c, t) \<in> set (sort_key fst kvs)" "tab_inv tab' i' sofar' q"
      then show "\<exists>tab''. trie_fuzzy_aux subk' k tab' t i' sofar' subq q ph' =
          Inr (fb_psearch subk' k (length tab') subq q t sofar' ph', tab'') \<and> frame tab' tab'' i'"
        by (intro Node.IH [of "(c, t)"]) auto
    qed
    then show ?thesis using False i by simp
  qed
qed

lemma fb_psearch_sound:
  "(w, d) \<in> set (fb_psearch subk k R subq q t sofar ph) \<Longrightarrow>
     d = int (LevenshteinDistance w q) \<and> d \<le> k \<and> Suc (length w) < R"
  "(w, d) \<in> set (fb_psearch_items subk k R subq q kvs sofar ph) \<Longrightarrow> Suc (length sofar) < R \<Longrightarrow>
     d = int (LevenshteinDistance w q) \<and> d \<le> k \<and> Suc (length w) < R"
  by (induction subk k R subq q t sofar ph and subk k R subq q kvs sofar ph
        rule: fb_psearch_fb_psearch_items.induct)
     (auto split: if_splits)

section \<open>The searches as pure functions\<close>

lemma init_tab_inv:
  assumes "0 \<le> k"
  shows "\<exists>tab. init_tab (length q) k = Inr tab \<and> tab_inv tab 1 [] q \<and>
           length tab = nat (int (length q) + k + 1)"
proof -
  let ?tab = "(new_tab (length q) k)[0 := lev_row [] q]"
  have "rect (new_tab (length q) k) (Suc (length q))"
    by (simp add: rect_def new_tab_def)
  then have "rect ?tab (Suc (length q))"
    by (rule rect_update) simp
  moreover have "length ?tab = nat (int (length q) + k + 1)"
    by (simp add: new_tab_def)
  moreover have "?tab ! 0 = lev_row [] q"
    using assms by (simp add: new_tab_def)
  ultimately have "tab_inv ?tab 1 [] q"
    by (intro tab_invI) auto
  with init_tab_ok [OF assms, of q] \<open>length ?tab = nat (int (length q) + k + 1)\<close>
  show ?thesis by blast
qed

lemma fuzzy_eq:
  assumes "0 \<le> k"
  shows "fuzzy root q k None False =
           Inr (psearch (\<lambda>_. k) (nat (int (length q) + k + 1)) q root [])"
proof -
  from init_tab_inv [OF assms, of q] obtain tab where
    tab: "init_tab (length q) k = Inr tab" "tab_inv tab 1 [] q"
      "length tab = nat (int (length q) + k + 1)"
    by blast
  from fuzzy_aux_refine [OF tab(2), of "\<lambda>_. k" root] obtain tab' where
    "fuzzy_aux (\<lambda>_. k) tab root 1 [] q False = Inr (psearch (\<lambda>_. k) (length tab) q root [], tab')"
    by blast
  with tab(1,3) show ?thesis
    by (simp add: fuzzy_def)
qed

lemma trie_fuzzy_eq:
  assumes "0 \<le> k" "length subq \<le> length q"
  shows "trie_fuzzy root subk k subq q =
           Inr (fb_psearch subk k (nat (int (length q) + k + 1)) subq q root [] 1)"
proof -
  from init_tab_inv [OF assms(1), of q] obtain tab where
    tab: "init_tab (length q) k = Inr tab" "tab_inv tab 1 [] q"
      "length tab = nat (int (length q) + k + 1)"
    by blast
  from trie_fuzzy_aux_refine [OF tab(2) assms(2), of subk k root 1] obtain tab' where
    "trie_fuzzy_aux subk k tab root 1 [] subq q 1 =
       Inr (fb_psearch subk k (length tab) subq q root [] 1, tab')"
    by blast
  with tab(1,3) show ?thesis
    by (simp add: trie_fuzzy_def)
qed

lemma fb_fuzzy_eq:
  assumes "0 \<le> k"
  shows "fb_fuzzy t q k =
     Inr (fb_psearch (fb_k1 k) k (nat (int (length q) + k + 1))
            (take (length q div 2) q) q (f t) [] 1
          @ map (\<lambda>(word, d). (rev word, d))
             (fb_psearch (fb_k2 k) k (nat (int (length q) + k + 1))
                (rev (drop (length q div 2) q)) (rev q) (b t) [] 1))"
proof -
  have pa: "trie_fuzzy (f t) (fb_k1 k) k (take (length q div 2) q) q =
      Inr (fb_psearch (fb_k1 k) k (nat (int (length q) + k + 1))
            (take (length q div 2) q) q (f t) [] 1)"
    using assms by (intro trie_fuzzy_eq) simp_all
  have pb: "trie_fuzzy (b t) (fb_k2 k) k (rev (drop (length q div 2) q)) (rev q) =
      Inr (fb_psearch (fb_k2 k) k (nat (int (length (rev q)) + k + 1))
            (rev (drop (length q div 2) q)) (rev q) (b t) [] 1)"
    using assms by (intro trie_fuzzy_eq) simp_all
  show ?thesis
    unfolding fb_fuzzy_def Let_def pa using pb by simp
qed

lemma fuzzy_sound:
  assumes "0 \<le> k" "fuzzy root q k None False = Inr ys" "(w, d) \<in> set ys"
  shows "d = int (LevenshteinDistance w q) \<and> d \<le> k \<and> int (length w) < int (length q) + k"
proof -
  from assms(2) fuzzy_eq [OF assms(1), of root q]
  have "ys = psearch (\<lambda>_. k) (nat (int (length q) + k + 1)) q root []" by simp
  with assms(3) have "(w, d) \<in> set (psearch (\<lambda>_. k) (nat (int (length q) + k + 1)) q root [])"
    by simp
  from psearch_sound(1) [OF this] show ?thesis by auto
qed

lemma fb_fuzzy_sound:
  assumes "0 \<le> k" "fb_fuzzy t q k = Inr zs" "(w, d) \<in> set zs"
  shows "d = int (LevenshteinDistance w q) \<and> d \<le> k \<and> int (length w) < int (length q) + k"
proof -
  let ?R = "nat (int (length q) + k + 1)"
  let ?A = "fb_psearch (fb_k1 k) k ?R (take (length q div 2) q) q (f t) [] 1"
  let ?B = "fb_psearch (fb_k2 k) k ?R (rev (drop (length q div 2) q)) (rev q) (b t) [] 1"
  from assms(2) fb_fuzzy_eq [OF assms(1), of t q]
  have "zs = ?A @ map (\<lambda>(word, d). (rev word, d)) ?B" by simp
  with assms(3) consider (a) "(w, d) \<in> set ?A" | (b) w' where "(w', d) \<in> set ?B" "w = rev w'"
    by auto
  then show ?thesis
  proof cases
    case a
    from fb_psearch_sound(1) [OF a] show ?thesis by auto
  next
    case b
    from fb_psearch_sound(1) [OF b(1)]
    have "d = int (LevenshteinDistance w' (rev q))" "d \<le> k" "Suc (length w') < ?R"
      by simp_all
    moreover have "LevenshteinDistance w' (rev q) = LevenshteinDistance w q"
      using lev_rev [of w' "rev q"] b(2) by simp
    ultimately show ?thesis using b(2) by auto
  qed
qed

lemma fuzzy_build_set:
  assumes "\<forall>w \<in> set ws. terminator \<notin> set w" "0 \<le> k"
  shows "set (psearch (\<lambda>_. k) (nat (int (length q) + k + 1)) q (build ws) []) =
           {(w, int (LevenshteinDistance w q)) | w.
              w \<in> set ws \<and> int (LevenshteinDistance w q) \<le> k \<and>
              int (length w) < int (length q) + k}"
proof -
  have "set (psearch (\<lambda>_. k) (nat (int (length q) + k + 1)) q (build ws) []) =
      within k (nat (int (length q) + k + 1)) q [] (set ws)"
    using psearch_complete(1) [OF build_wf [OF assms(1)]] build_words [OF assms(1)] by simp
  also have "\<dots> = {(w, int (LevenshteinDistance w q)) | w.
              w \<in> set ws \<and> int (LevenshteinDistance w q) \<le> k \<and>
              int (length w) < int (length q) + k}"
    unfolding within_def using assms(2) by auto
  finally show ?thesis .
qed

section \<open>Invariant, phases and orientation\<close>





lemma words_sort_key: "words (Node (sort_key g kvs)) = words (Node kvs)"
  by (simp add: words.simps)

lemma words_rest_subset: "words (Node rest) \<subseteq> words (Node (kv # rest))"
  by (cases kv) (simp add: words_Cons)

lemma wf_trie_items:
  "wf_trie (Node kvs) \<Longrightarrow> \<forall>(c, t) \<in> set kvs. (c = terminator \<longrightarrow> t = Node []) \<and> wf_trie t"
  by (simp add: wf_trie.simps)

lemma fb_psearch_words:
  "wf_trie t \<Longrightarrow> (w, d) \<in> set (fb_psearch subk k R subq q t sofar ph) \<Longrightarrow>
     \<exists>u \<in> words t. w = sofar @ u"
  "\<forall>(c, t) \<in> set kvs. (c = terminator \<longrightarrow> t = Node []) \<and> wf_trie t \<Longrightarrow>
     (w, d) \<in> set (fb_psearch_items subk k R subq q kvs sofar ph) \<Longrightarrow>
     \<exists>u \<in> words (Node kvs). w = sofar @ u"
proof (induction subk k R subq q t sofar ph and subk k R subq q kvs sofar ph
    rule: fb_psearch_fb_psearch_items.induct)
  case (1 subk k R subq q kvs sofar ph)
  from "1.prems"(2) have nr: "\<not> R \<le> Suc (length sofar)"
    and mem: "(w, d) \<in> set (fb_psearch_items subk k R subq q (sort_key fst kvs) sofar ph)"
    by (auto split: if_splits)
  have "\<forall>(c, t) \<in> set (sort_key fst kvs). (c = terminator \<longrightarrow> t = Node []) \<and> wf_trie t"
    using wf_trie_items [OF "1.prems"(1)] by simp
  from "1.IH" [OF nr this mem] show ?case
    by (simp add: words_sort_key)
next
  case (2 subk k R subq q sofar ph)
  then show ?case by simp
next
  case (3 subk k R subq q c child rest sofar ph)
  have wf_rest: "\<forall>(c, t) \<in> set rest. (c = terminator \<longrightarrow> t = Node []) \<and> wf_trie t"
    and wf_child: "wf_trie child" and leaf: "c = terminator \<Longrightarrow> child = Node []"
    using "3.prems"(1) by simp_all
  let ?y = "c = terminator \<and> int (LevenshteinDistance sofar q) \<le> k"
  let ?s = "ph = 1 \<and> lev_row (sofar @ [c]) q ! length subq \<le> subk"
  let ?m = "row_least (sofar @ [c]) q \<le> subk"
  from "3.prems"(2) consider
    (yield) "?y" "w = sofar"
    | (rest) "(w, d) \<in> set (fb_psearch_items subk k R subq q rest sofar ph)"
    | (switch) "\<not> ?y" "?s" "(w, d) \<in> set (fb_psearch k k R subq q child (sofar @ [c]) 2)"
    | (stay) "\<not> ?y" "\<not> ?s" "?m"
        "(w, d) \<in> set (fb_psearch subk k R subq q child (sofar @ [c]) ph)"
    by (auto split: if_splits)
  then show ?case
  proof cases
    case yield
    then have "[] \<in> words (Node ((c, child) # rest))" by (simp add: words_Cons)
    with yield(2) show ?thesis by auto
  next
    case rest
    have "\<exists>u \<in> words (Node rest). w = sofar @ u"
    proof (cases ?y)
      case True
      from "3.IH"(1) [OF True wf_rest rest] show ?thesis .
    next
      case False
      from "3.IH"(4) [OF False wf_rest rest] show ?thesis .
    qed
    with words_rest_subset [of rest "(c, child)"] show ?thesis by blast
  next
    case switch
    from "3.IH"(2) [OF switch(1,2) wf_child switch(3)] obtain u where
      u: "u \<in> words child" "w = (sofar @ [c]) @ u" by blast
    with leaf have "c \<noteq> terminator" by (auto simp: words_Nil)
    with u have "c # u \<in> words (Node ((c, child) # rest))" by (simp add: words_Cons)
    with u(2) show ?thesis by auto
  next
    case stay
    from "3.IH"(3) [OF stay(1,2,3) wf_child stay(4)] obtain u where
      u: "u \<in> words child" "w = (sofar @ [c]) @ u" by blast
    with leaf have "c \<noteq> terminator" by (auto simp: words_Nil)
    with u have "c # u \<in> words (Node ((c, child) # rest))" by (simp add: words_Cons)
    with u(2) show ?thesis by auto
  qed
qed

lemma foldl_fb_insert:
  "foldl (\<lambda>t w. fb_insert w t) t0 ws =
     \<lparr>f = foldl (\<lambda>t w. insert_word w t) (f t0) ws,
      b = foldl (\<lambda>t w. insert_word w t) (b t0) (map rev ws)\<rparr>"
  by (induction ws arbitrary: t0) (simp_all add: fb_insert_def)

lemma fb_build_f: "f (fb_build ws) = build ws"
  by (simp add: fb_build_def build_def foldl_fb_insert empty_fbtrie_def)

lemma fb_build_b: "b (fb_build ws) = build (map rev ws)"
  by (simp add: fb_build_def build_def foldl_fb_insert empty_fbtrie_def)

lemma fb_fuzzy_words:
  assumes "0 \<le> k" "\<forall>w \<in> set ws. terminator \<notin> set w"
    and "fb_fuzzy (fb_build ws) q k = Inr zs" "(w, d) \<in> set zs"
  shows "w \<in> set ws"
proof -
  let ?R = "nat (int (length q) + k + 1)"
  let ?A = "fb_psearch (fb_k1 k) k ?R (take (length q div 2) q) q (build ws) [] 1"
  let ?B = "fb_psearch (fb_k2 k) k ?R (rev (drop (length q div 2) q)) (rev q)
              (build (map rev ws)) [] 1"
  have rv: "\<forall>w \<in> set (map rev ws). terminator \<notin> set w"
    using assms(2) by simp
  from assms(3) fb_fuzzy_eq [OF assms(1), of "fb_build ws" q]
  have "zs = ?A @ map (\<lambda>(word, d). (rev word, d)) ?B"
    by (simp add: fb_build_f fb_build_b)
  with assms(4) consider (a) "(w, d) \<in> set ?A" | (b) w' where "(w', d) \<in> set ?B" "w = rev w'"
    by auto
  then show ?thesis
  proof cases
    case a
    from fb_psearch_words(1) [OF build_wf [OF assms(2)] a] show ?thesis
      by (simp add: build_words [OF assms(2)])
  next
    case b
    from fb_psearch_words(1) [OF build_wf [OF rv] b(1)] have "w' \<in> rev ` set ws"
      by (simp add: build_words [OF rv])
    with b(2) show ?thesis by auto
  qed
qed

lemma psearch_items_Cons_append:
  "psearch_items kf R q (p # rest) sofar =
     psearch_items kf R q [p] sofar @ psearch_items kf R q rest sofar"
  by (cases p) auto

lemma set_psearch_items:
  "set (psearch_items kf R q kvs sofar) = (\<Union>p \<in> set kvs. set (psearch_items kf R q [p] sofar))"
proof (induction kvs)
  case Nil
  show ?case by simp
next
  case (Cons p rest)
  have "set (psearch_items kf R q (p # rest) sofar) =
      set (psearch_items kf R q [p] sofar) \<union> set (psearch_items kf R q rest sofar)"
    by (simp only: psearch_items_Cons_append [of kf R q p rest] set_append)
  with Cons show ?case by simp
qed

lemma set_psearch_items_sort_key:
  "set (psearch_items kf R q (sort_key g kvs) sofar) = set (psearch_items kf R q kvs sofar)"
  by (simp add: set_psearch_items [of kf R q "sort_key g kvs"] set_psearch_items [of kf R q kvs])

lemma fb_phase2_is_plain:
  "ph = 2 \<Longrightarrow> subk = k \<Longrightarrow>
     set (fb_psearch subk k R subq q t sofar ph) = set (psearch (\<lambda>_. k) R q t sofar)"
  "ph = 2 \<Longrightarrow> subk = k \<Longrightarrow>
     set (fb_psearch_items subk k R subq q kvs sofar ph) = set (psearch_items (\<lambda>_. k) R q kvs sofar)"
proof (induction subk k R subq q t sofar ph and subk k R subq q kvs sofar ph
    rule: fb_psearch_fb_psearch_items.induct)
  case (1 subk k R subq q kvs sofar ph)
  show ?case
  proof (cases "R \<le> Suc (length sofar)")
    case True
    then show ?thesis by simp
  next
    case False
    from "1.IH" [OF False "1.prems"] False show ?thesis
      by (simp add: set_psearch_items_sort_key)
  qed
next
  case (2 subk k R subq q sofar ph)
  show ?case by simp
next
  case (3 subk k R subq q c child rest sofar ph)
  note p = "3.prems"
  show ?case
  proof (cases "c = terminator \<and> int (LevenshteinDistance sofar q) \<le> k")
    case True
    from "3.IH"(1) [OF True p] True show ?thesis by simp
  next
    case False
    have ns: "\<not> (ph = 1 \<and> lev_row (sofar @ [c]) q ! length subq \<le> subk)"
      using p(1) by simp
    note rest = "3.IH"(4) [OF False p]
    show ?thesis
    proof (cases "row_least (sofar @ [c]) q \<le> subk")
      case True
      from "3.IH"(3) [OF False ns True p] rest False True p show ?thesis by auto
    next
      case nm: False
      with rest False p show ?thesis by auto
    qed
  qed
qed




section \<open>Completeness of the forward/backward search\<close>

text \<open>
  An optimal edit script from a word to \<open>q1 @ q2\<close> splits into a script from a prefix of
  the word to \<open>q1\<close> and one from the rest to \<open>q2\<close>. Since the two first-half budgets
  add up to \<open>k - 1\<close>, a word within \<open>k\<close> of the query has its first part within
  \<open>fb_k1 k\<close> of the first half or its second part within \<open>fb_k2 k\<close> of the second
  half. When the half in question is not empty, the prefix can be taken non-empty, and
  the walk of that phase reaches the word: this is where a query of one character
  differs from the longer ones.
\<close>

lemma edits_split:
  "edits xs ys n \<Longrightarrow> ys = ys1 @ ys2 \<Longrightarrow>
     \<exists>xs1 xs2 n1 n2. xs = xs1 @ xs2 \<and> edits xs1 ys1 n1 \<and> edits xs2 ys2 n2 \<and> n1 + n2 = n"
proof (induction arbitrary: ys1 ys2 rule: edits.induct)
  case edits_Nil
  then have "ys1 = []" "ys2 = []" by simp_all
  then show ?case using edits.edits_Nil by fastforce
next
  case (edits_keep xs ys n x)
  show ?case
  proof (cases ys1)
    case Nil
    with edits_keep.prems have "ys2 = x # ys" by simp
    moreover have "edits (x # xs) (x # ys) n"
      using edits_keep.hyps by (rule edits.edits_keep)
    ultimately have "x # xs = [] @ (x # xs) \<and> edits [] ys1 0 \<and> edits (x # xs) ys2 n \<and> 0 + n = n"
      using Nil edits.edits_Nil by simp
    then show ?thesis by blast
  next
    case (Cons y ys1')
    with edits_keep.prems have y: "y = x" and ys: "ys = ys1' @ ys2" by simp_all
    from edits_keep.IH [OF ys] obtain xs1 xs2 n1 n2 where
      s: "xs = xs1 @ xs2" "edits xs1 ys1' n1" "edits xs2 ys2 n2" "n1 + n2 = n"
      by blast
    have "edits (x # xs1) ys1 n1"
      using s(2) Cons y by (simp add: edits.edits_keep)
    with s have "x # xs = (x # xs1) @ xs2 \<and> edits (x # xs1) ys1 n1 \<and> edits xs2 ys2 n2 \<and> n1 + n2 = n"
      by simp
    then show ?thesis by blast
  qed
next
  case (edits_subst xs ys n x y)
  show ?case
  proof (cases ys1)
    case Nil
    with edits_subst.prems have "ys2 = y # ys" by simp
    moreover have "edits (x # xs) (y # ys) (Suc n)"
      using edits_subst.hyps by (rule edits.edits_subst)
    ultimately have "x # xs = [] @ (x # xs) \<and> edits [] ys1 0 \<and> edits (x # xs) ys2 (Suc n)
        \<and> 0 + Suc n = Suc n"
      using Nil edits.edits_Nil by simp
    then show ?thesis by blast
  next
    case (Cons y' ys1')
    with edits_subst.prems have y: "y' = y" and ys: "ys = ys1' @ ys2" by simp_all
    from edits_subst.IH [OF ys] obtain xs1 xs2 n1 n2 where
      s: "xs = xs1 @ xs2" "edits xs1 ys1' n1" "edits xs2 ys2 n2" "n1 + n2 = n"
      by blast
    have "edits (x # xs1) ys1 (Suc n1)"
      using s(2) Cons y by (simp add: edits.edits_subst)
    with s have "x # xs = (x # xs1) @ xs2 \<and> edits (x # xs1) ys1 (Suc n1) \<and> edits xs2 ys2 n2
        \<and> Suc n1 + n2 = Suc n"
      by simp
    then show ?thesis by blast
  qed
next
  case (edits_delete xs ys n x)
  from edits_delete.IH [OF edits_delete.prems] obtain xs1 xs2 n1 n2 where
    s: "xs = xs1 @ xs2" "edits xs1 ys1 n1" "edits xs2 ys2 n2" "n1 + n2 = n"
    by blast
  have "edits (x # xs1) ys1 (Suc n1)"
    using s(2) by (rule edits.edits_delete)
  with s have "x # xs = (x # xs1) @ xs2 \<and> edits (x # xs1) ys1 (Suc n1) \<and> edits xs2 ys2 n2
      \<and> Suc n1 + n2 = Suc n"
    by simp
  then show ?case by blast
next
  case (edits_insert xs ys n y)
  show ?case
  proof (cases ys1)
    case Nil
    with edits_insert.prems have "ys2 = y # ys" by simp
    moreover have "edits xs (y # ys) (Suc n)"
      using edits_insert.hyps by (rule edits.edits_insert)
    ultimately have "xs = [] @ xs \<and> edits [] ys1 0 \<and> edits xs ys2 (Suc n) \<and> 0 + Suc n = Suc n"
      using Nil edits.edits_Nil by simp
    then show ?thesis by blast
  next
    case (Cons y' ys1')
    with edits_insert.prems have y: "y' = y" and ys: "ys = ys1' @ ys2" by simp_all
    from edits_insert.IH [OF ys] obtain xs1 xs2 n1 n2 where
      s: "xs = xs1 @ xs2" "edits xs1 ys1' n1" "edits xs2 ys2 n2" "n1 + n2 = n"
      by blast
    have "edits xs1 ys1 (Suc n1)"
      using s(2) Cons y by (simp add: edits.edits_insert)
    with s have "xs = xs1 @ xs2 \<and> edits xs1 ys1 (Suc n1) \<and> edits xs2 ys2 n2
        \<and> Suc n1 + n2 = Suc n"
      by simp
    then show ?thesis by blast
  qed
qed

lemma lev_split:
  "\<exists>w1 w2. w = w1 @ w2 \<and>
     LevenshteinDistance w1 q1 + LevenshteinDistance w2 q2 \<le> LevenshteinDistance w (q1 @ q2)"
proof -
  from edits_split [OF edits_lev refl, of w q1 q2] obtain w1 w2 n1 n2 where
    s: "w = w1 @ w2" "edits w1 q1 n1" "edits w2 q2 n2"
      "n1 + n2 = LevenshteinDistance w (q1 @ q2)"
    by blast
  from lev_least [OF s(2)] lev_least [OF s(3)] s(4)
  have "LevenshteinDistance w1 q1 + LevenshteinDistance w2 q2 \<le> LevenshteinDistance w (q1 @ q2)"
    by linarith
  with s(1) show ?thesis by blast
qed

lemma lev_single_le: "q \<noteq> [] \<Longrightarrow> LevenshteinDistance [c] q \<le> length q"
  by (cases q) (simp_all add: min_le_iff_disj)

lemma row_least_le_extension_cell:
  assumes "j \<le> length q"
  shows "row_least p q \<le> int (LevenshteinDistance (p @ u) (take j q))"
proof -
  from lev_append_step [OF assms, of p u] obtain j' where
    "j' \<le> length q" "LevenshteinDistance p (take j' q) \<le> LevenshteinDistance (p @ u) (take j q)"
    by blast
  with row_least_le_cell [of j' q p] show ?thesis by simp
qed

lemma fb_psearch_items_Cons_append:
  "fb_psearch_items subk k R subq q (p # rest) sofar ph =
     fb_psearch_items subk k R subq q [p] sofar ph @ fb_psearch_items subk k R subq q rest sofar ph"
  by (cases p) auto

lemma set_fb_psearch_items:
  "set (fb_psearch_items subk k R subq q kvs sofar ph) =
     (\<Union>p \<in> set kvs. set (fb_psearch_items subk k R subq q [p] sofar ph))"
proof (induction kvs)
  case Nil
  show ?case by simp
next
  case (Cons p rest)
  have "set (fb_psearch_items subk k R subq q (p # rest) sofar ph) =
      set (fb_psearch_items subk k R subq q [p] sofar ph)
      \<union> set (fb_psearch_items subk k R subq q rest sofar ph)"
    by (simp only: fb_psearch_items_Cons_append [of subk k R subq q p rest] set_append)
  with Cons show ?case by simp
qed

lemma fb_psearch_item_subset:
  assumes "(c, child) \<in> set kvs" "Suc (length sofar) < R"
  shows "set (fb_psearch_items subk k R subq q [(c, child)] sofar ph)
           \<subseteq> set (fb_psearch subk k R subq q (Node kvs) sofar ph)"
proof -
  have "set (fb_psearch subk k R subq q (Node kvs) sofar ph) =
      (\<Union>p \<in> set kvs. set (fb_psearch_items subk k R subq q [p] sofar ph))"
    using assms(2) set_fb_psearch_items [of subk k R subq q "sort_key fst kvs" sofar ph]
    by simp
  with assms(1) show ?thesis by blast
qed

lemma fb_root_yield:
  assumes "[] \<in> words t" "int (LevenshteinDistance sofar q) \<le> k" "Suc (length sofar) < R"
  shows "(sofar, int (LevenshteinDistance sofar q)) \<in> set (fb_psearch subk k R subq q t sofar ph)"
proof -
  obtain kvs where t: "t = Node kvs" by (cases t)
  from assms(1) t obtain child where m: "(terminator, child) \<in> set kvs"
    by (force simp: words.simps split: if_splits)
  have "(sofar, int (LevenshteinDistance sofar q))
      \<in> set (fb_psearch_items subk k R subq q [(terminator, child)] sofar ph)"
    using assms(2) by simp
  with fb_psearch_item_subset [OF m assms(3)] t show ?thesis by blast
qed

lemma words_ConsD:
  assumes "c # u \<in> words (Node kvs)"
  shows "c \<noteq> terminator \<and> (\<exists>child. (c, child) \<in> set kvs \<and> u \<in> words child)"
  using assms by (force simp: words.simps split: if_splits)

lemma fb_phase1_complete:
  assumes "wf_trie t" "u \<in> words t" "u = v1 @ v2" "v1 \<noteq> []"
    and "int (LevenshteinDistance (sofar @ v1) (take (length subq) q)) \<le> subk"
    and "length subq \<le> length q"
    and "int (LevenshteinDistance (sofar @ u) q) \<le> k" "Suc (length (sofar @ u)) < R"
  shows "(sofar @ u, int (LevenshteinDistance (sofar @ u) q))
           \<in> set (fb_psearch subk k R subq q t sofar 1)"
  using assms(1-5,7,8)
proof (induction v1 arbitrary: t sofar u)
  case Nil
  then show ?case by simp
next
  case (Cons c v1')
  obtain kvs where t: "t = Node kvs" by (cases t)
  let ?u' = "v1' @ v2"
  let ?p = "sofar @ [c]"
  have u: "u = c # ?u'" using Cons.prems(3) by simp
  from Cons.prems(2) u t words_ConsD [of c ?u' kvs] obtain child where
    c: "c \<noteq> terminator" and m: "(c, child) \<in> set kvs" and u': "?u' \<in> words child"
    by blast
  have wfc: "wf_trie child"
    using wf_trie_items [of kvs] Cons.prems(1) t m by blast
  have R: "Suc (length sofar) < R" using Cons.prems(7) by simp
  have w: "sofar @ u = ?p @ ?u'" using u by simp
  have col: "lev_row ?p q ! length subq = int (LevenshteinDistance ?p (take (length subq) q))"
    using assms(6) by (simp add: lev_row_nth)
  have "(sofar @ u, int (LevenshteinDistance (sofar @ u) q))
      \<in> set (fb_psearch_items subk k R subq q [(c, child)] sofar 1)"
  proof (cases "lev_row ?p q ! length subq \<le> subk")
    case True
    have "(?p @ ?u', int (LevenshteinDistance (?p @ ?u') q)) \<in> within k R q ?p (words child)"
      unfolding within_def using u' Cons.prems(6,7) w by auto
    then have "(?p @ ?u', int (LevenshteinDistance (?p @ ?u') q))
        \<in> set (fb_psearch k k R subq q child ?p 2)"
      using fb_phase2_is_plain(1) [OF refl refl, of k R subq q child ?p]
        psearch_complete(1) [OF wfc, of k R q ?p] by simp
    then show ?thesis using True c w by simp
  next
    case False
    with col Cons.prems(5) have ne: "v1' \<noteq> []" by auto
    have sub: "int (LevenshteinDistance (?p @ v1') (take (length subq) q)) \<le> subk"
      using Cons.prems(5) by simp
    have "row_least ?p q \<le> int (LevenshteinDistance (?p @ v1') (take (length subq) q))"
      using assms(6) by (rule row_least_le_extension_cell)
    with sub have least: "row_least ?p q \<le> subk" by linarith
    have "(?p @ ?u', int (LevenshteinDistance (?p @ ?u') q))
        \<in> set (fb_psearch subk k R subq q child ?p 1)"
      using wfc u' refl ne sub Cons.prems(6,7) w
      by (intro Cons.IH) simp_all
    then show ?thesis using False least c w by simp
  qed
  with fb_psearch_item_subset [OF m R] t show ?case by blast
qed

lemma fb_budgets_cover:
  assumes "int a + int c \<le> k"
  shows "int a \<le> fb_k1 k \<or> int c \<le> fb_k2 k"
  using assms unfolding fb_k1_def fb_k2_def by presburger

lemma first_part_nonempty:
  assumes "w = w1 @ w2" "w \<noteq> []" "q1 \<noteq> []" "int (LevenshteinDistance w1 q1) \<le> s"
  shows "\<exists>v1 v2. w = v1 @ v2 \<and> v1 \<noteq> [] \<and> int (LevenshteinDistance v1 q1) \<le> s"
proof (cases w1)
  case Nil
  obtain c w' where w: "w = c # w'" using assms(2) by (cases w) auto
  have "LevenshteinDistance [c] q1 \<le> length q1"
    using assms(3) by (rule lev_single_le)
  moreover have "int (length q1) \<le> s" using assms(4) Nil by simp
  ultimately have "int (LevenshteinDistance [c] q1) \<le> s" by linarith
  with w have "w = [c] @ w' \<and> [c] \<noteq> [] \<and> int (LevenshteinDistance [c] q1) \<le> s" by simp
  then show ?thesis by blast
next
  case (Cons c w1')
  with assms(1,4) show ?thesis by blast
qed

lemma fb_complete:
  assumes tf: "\<forall>w \<in> set ws. terminator \<notin> set w" and k: "0 \<le> k" and n2: "2 \<le> length q"
    and w: "w \<in> set ws" "int (LevenshteinDistance w q) \<le> k"
      "int (length w) < int (length q) + k"
    and zs: "fb_fuzzy (fb_build ws) q k = Inr zs"
  shows "(w, int (LevenshteinDistance w q)) \<in> set zs"
proof -
  let ?n = "length q"
  let ?q1 = "take (?n div 2) q"
  let ?q2 = "drop (?n div 2) q"
  let ?R = "nat (int ?n + k + 1)"
  let ?A = "fb_psearch (fb_k1 k) k ?R ?q1 q (build ws) [] 1"
  let ?B = "fb_psearch (fb_k2 k) k ?R (rev ?q2) (rev q) (build (map rev ws)) [] 1"
  have rv: "\<forall>w \<in> set (map rev ws). terminator \<notin> set w"
    using tf by simp
  have zs_eq: "zs = ?A @ map (\<lambda>(word, d). (rev word, d)) ?B"
    using zs fb_fuzzy_eq [OF k, of "fb_build ws" q] by (simp add: fb_build_f fb_build_b)
  have q1: "?q1 \<noteq> []" and q2: "?q2 \<noteq> []" using n2 by auto
  have R: "Suc (length w) < ?R" using w(3) k by simp
  have wA: "w \<in> words (build ws)" using w(1) by (simp add: build_words [OF tf])
  have wB: "rev w \<in> words (build (map rev ws))" using w(1) by (simp add: build_words [OF rv])
  have kk: "fb_k1 k \<le> k" "fb_k2 k \<le> k"
    using k unfolding fb_k1_def fb_k2_def by presburger+
  show ?thesis
  proof (cases "w = []")
    case True
    have "([], int (LevenshteinDistance [] q)) \<in> set ?A"
      using wA w(2) R True by (intro fb_root_yield) simp_all
    with True zs_eq show ?thesis by simp
  next
    case False
    from lev_split [of w ?q1 ?q2] obtain w1 w2 where
      s: "w = w1 @ w2"
        "LevenshteinDistance w1 ?q1 + LevenshteinDistance w2 ?q2 \<le> LevenshteinDistance w q"
      by auto
    with w(2) have "int (LevenshteinDistance w1 ?q1) + int (LevenshteinDistance w2 ?q2) \<le> k"
      by linarith
    from fb_budgets_cover [OF this] show ?thesis
    proof
      assume "int (LevenshteinDistance w1 ?q1) \<le> fb_k1 k"
      from first_part_nonempty [OF s(1) False q1 this] obtain v1 v2 where
        v: "w = v1 @ v2" "v1 \<noteq> []" "int (LevenshteinDistance v1 ?q1) \<le> fb_k1 k"
        by blast
      have "([] @ w, int (LevenshteinDistance ([] @ w) q)) \<in> set ?A"
        using build_wf [OF tf] wA v w(2) R
        by (intro fb_phase1_complete [where ?v1.0 = v1 and ?v2.0 = v2]) simp_all
      with zs_eq show ?thesis by simp
    next
      assume a: "int (LevenshteinDistance w2 ?q2) \<le> fb_k2 k"
      have s': "rev w = rev w2 @ rev w1" using s(1) by simp
      have "int (LevenshteinDistance (rev w2) (rev ?q2)) \<le> fb_k2 k"
        using a by (simp add: lev_rev)
      from first_part_nonempty [OF s' _ _ this] False q2 obtain v1 v2 where
        v: "rev w = v1 @ v2" "v1 \<noteq> []" "int (LevenshteinDistance v1 (rev ?q2)) \<le> fb_k2 k"
        by auto
      have tk: "take (length (rev ?q2)) (rev q) = rev ?q2"
        by (simp add: take_rev)
      have lv: "LevenshteinDistance (rev w) (rev q) = LevenshteinDistance w q"
        by (rule lev_rev)
      have len: "length v1 + length v2 = length w"
        using arg_cong [OF v(1), of length] by simp
      have "([] @ rev w, int (LevenshteinDistance ([] @ rev w) (rev q))) \<in> set ?B"
        using build_wf [OF rv] wB v w(2) R tk lv len
        by (intro fb_phase1_complete [where ?v1.0 = v1 and ?v2.0 = v2]) simp_all
      then have "(rev w, int (LevenshteinDistance w q)) \<in> set ?B"
        using lv by simp
      then have "(rev (rev w), int (LevenshteinDistance w q))
          \<in> set (map (\<lambda>(word, d). (rev word, d)) ?B)"
        by force
      with zs_eq show ?thesis by simp
    qed
  qed
qed


section \<open>The claims\<close>

text \<open>
  Claim C1 (the search returns exactly the dictionary words within distance k), settled
  against the code. On a trie built from terminator-free words the plain search returns
  the words within distance k whose length is below \<open>length query + k\<close>, each with its
  distance: a word of length \<open>length query + k\<close> has its terminator tested at depth
  \<open>length query + k + 1\<close>, which is the row capacity where the walk returns first. At the
  spec's scenario (cat, cats, bat, rat; query cat; k = 1) the word cats, at distance 1,
  is not returned.
\<close>

theorem C1_plain_search_result:
  "((\<forall>w \<in> set ws. terminator \<notin> set w) \<and> 0 \<le> k \<longrightarrow>
      (\<exists>ys. fuzzy (build ws) query k None False = Inr ys \<and>
         set ys = {(w, int (LevenshteinDistance w query)) | w.
                    w \<in> set ws \<and> int (LevenshteinDistance w query) \<le> k \<and>
                    int (length w) < int (length query) + k}))
   \<and> fuzzy (build [''cat'', ''cats'', ''bat'', ''rat'']) ''cat'' 1 None False
       = Inr [(''cat'', 0), (''bat'', 1), (''rat'', 1)]
   \<and> LevenshteinDistance ''cats'' ''cat'' = 1"
proof (intro conjI impI)
  assume h: "(\<forall>w \<in> set ws. terminator \<notin> set w) \<and> 0 \<le> k"
  then have tf: "\<forall>w \<in> set ws. terminator \<notin> set w" and k: "0 \<le> k" by blast+
  from fuzzy_eq [OF k, of "build ws" query] fuzzy_build_set [OF tf k, of query]
  show "\<exists>ys. fuzzy (build ws) query k None False = Inr ys \<and>
         set ys = {(w, int (LevenshteinDistance w query)) | w.
                    w \<in> set ws \<and> int (LevenshteinDistance w query) \<le> k \<and>
                    int (length w) < int (length query) + k}"
    by blast
next
  show "fuzzy (build [''cat'', ''cats'', ''bat'', ''rat'']) ''cat'' 1 None False
       = Inr [(''cat'', 0), (''bat'', 1), (''rat'', 1)]"
    by code_simp
next
  show "LevenshteinDistance ''cats'' ''cat'' = 1"
    by code_simp
qed

theorem C1_plain_search_result_witness:
  "\<exists>ys. fuzzy (build [''cat'', ''cats'', ''bat'', ''rat'']) ''cat'' 1 None False = Inr ys \<and>
     set ys = {(w, int (LevenshteinDistance w ''cat'')) | w.
                w \<in> set [''cat'', ''cats'', ''bat'', ''rat''] \<and>
                int (LevenshteinDistance w ''cat'') \<le> 1 \<and>
                int (length w) < int (length ''cat'') + 1}"
proof -
  have h: "(\<forall>w \<in> set [''cat'', ''cats'', ''bat'', ''rat'']. terminator \<notin> set w) \<and> (0::int) \<le> 1"
    by (simp add: terminator_def)
  show ?thesis
    by (rule C1_plain_search_result [where ws = "[''cat'', ''cats'', ''bat'', ''rat'']"
          and k = 1 and query = "''cat''", THEN conjunct1, THEN mp, OF h])
qed

text \<open>
  Claim C2 (the forward/backward result, deduplicated, is the plain result), settled
  against the code. Every pair of both searches carries the exact distance, so
  deduplication by least distance is the set of pairs. The forward/backward set is
  always contained in the plain one, and it is the plain one when the query has at least
  two characters; with the dictionary b, the query a and k = 1 the plain search returns
  b at distance 1 and the forward/backward search returns nothing.
\<close>

theorem C2_fb_subset_of_plain:
  "((\<forall>w \<in> set ws. terminator \<notin> set w) \<and> 0 \<le> k \<longrightarrow>
      (\<exists>ys zs. fuzzy (build ws) query k None False = Inr ys \<and>
         fb_fuzzy (fb_build ws) query k = Inr zs \<and> set zs \<subseteq> set ys \<and>
         (2 \<le> length query \<longrightarrow> set zs = set ys)))
   \<and> fb_fuzzy (fb_build [''b'']) ''a'' 1 = Inr []
   \<and> fuzzy (build [''b'']) ''a'' 1 None False = Inr [(''b'', 1)]"
proof (intro conjI impI)
  assume h: "(\<forall>w \<in> set ws. terminator \<notin> set w) \<and> 0 \<le> k"
  then have tf: "\<forall>w \<in> set ws. terminator \<notin> set w" and k: "0 \<le> k" by blast+
  obtain ys where ys: "fuzzy (build ws) query k None False = Inr ys"
    and sys: "set ys = {(w, int (LevenshteinDistance w query)) | w.
                    w \<in> set ws \<and> int (LevenshteinDistance w query) \<le> k \<and>
                    int (length w) < int (length query) + k}"
    using fuzzy_eq [OF k, of "build ws" query] fuzzy_build_set [OF tf k, of query] by blast
  obtain zs where zs: "fb_fuzzy (fb_build ws) query k = Inr zs"
    using fb_fuzzy_eq [OF k] by blast
  have "p \<in> set ys" if "p \<in> set zs" for p
  proof -
    obtain w d where p: "p = (w, d)" by (cases p)
    with that have m: "(w, d) \<in> set zs" by simp
    from fb_fuzzy_sound [OF k zs m] fb_fuzzy_words [OF k tf zs m] p
    show ?thesis unfolding sys by blast
  qed
  then have sub: "set zs \<subseteq> set ys" by blast
  have "p \<in> set zs" if n: "2 \<le> length query" and p: "p \<in> set ys" for p
  proof -
    from p obtain w where w: "p = (w, int (LevenshteinDistance w query))" "w \<in> set ws"
        "int (LevenshteinDistance w query) \<le> k" "int (length w) < int (length query) + k"
      unfolding sys by blast
    from fb_complete [OF tf k n w(2) w(3) w(4) zs] w(1) show ?thesis by simp
  qed
  with sub have "2 \<le> length query \<longrightarrow> set zs = set ys" by blast
  with ys zs sub show "\<exists>ys zs. fuzzy (build ws) query k None False = Inr ys \<and>
         fb_fuzzy (fb_build ws) query k = Inr zs \<and> set zs \<subseteq> set ys \<and>
         (2 \<le> length query \<longrightarrow> set zs = set ys)"
    by blast
next
  show "fb_fuzzy (fb_build [''b'']) ''a'' 1 = Inr []"
    by code_simp
next
  show "fuzzy (build [''b'']) ''a'' 1 None False = Inr [(''b'', 1)]"
    by code_simp
qed

theorem C2_fb_subset_of_plain_witness:
  "\<exists>ys zs. fuzzy (build [''cat'', ''cats'', ''bat'']) ''cat'' 2 None False = Inr ys \<and>
     fb_fuzzy (fb_build [''cat'', ''cats'', ''bat'']) ''cat'' 2 = Inr zs \<and> set zs = set ys"
proof -
  have h: "(\<forall>w \<in> set [''cat'', ''cats'', ''bat'']. terminator \<notin> set w) \<and> (0::int) \<le> 2"
    by (simp add: terminator_def)
  have n: "2 \<le> length ''cat''"
    by simp
  from C2_fb_subset_of_plain [where ws = "[''cat'', ''cats'', ''bat'']"
      and k = 2 and query = "''cat''", THEN conjunct1, THEN mp, OF h]
  obtain ys zs where
    r: "fuzzy (build [''cat'', ''cats'', ''bat'']) ''cat'' 2 None False = Inr ys"
      "fb_fuzzy (fb_build [''cat'', ''cats'', ''bat'']) ''cat'' 2 = Inr zs"
      "2 \<le> length ''cat'' \<longrightarrow> set zs = set ys"
    by blast
  from r(3) n have "set zs = set ys" by (rule mp)
  with r(1,2) show ?thesis by blast
qed

text \<open>
  Claim C3: for a budget k that is not negative, on any tries, both searches return and
  every pair they return carries the Levenshtein distance between its word and the
  query, which is at most k; the distance does not change when both strings are
  reversed, which the backward phase relies on.
\<close>

theorem C3_emitted_pairs_sound:
  assumes "0 \<le> k"
  shows "(\<exists>ys. fuzzy root query k None False = Inr ys \<and>
            (\<forall>(w, d) \<in> set ys. d = int (LevenshteinDistance w query) \<and> d \<le> k))
       \<and> (\<exists>zs. fb_fuzzy t query k = Inr zs \<and>
            (\<forall>(w, d) \<in> set zs. d = int (LevenshteinDistance w query) \<and> d \<le> k))
       \<and> LevenshteinDistance (rev w') (rev query) = LevenshteinDistance w' query"
proof (intro conjI)
  obtain ys where ys: "fuzzy root query k None False = Inr ys"
    using fuzzy_eq [OF assms] by blast
  have "d = int (LevenshteinDistance w query) \<and> d \<le> k" if "(w, d) \<in> set ys" for w d
    using fuzzy_sound [OF assms ys that] by simp
  then have "\<forall>(w, d) \<in> set ys. d = int (LevenshteinDistance w query) \<and> d \<le> k"
    by blast
  with ys show "\<exists>ys. fuzzy root query k None False = Inr ys \<and>
            (\<forall>(w, d) \<in> set ys. d = int (LevenshteinDistance w query) \<and> d \<le> k)"
    by blast
next
  obtain zs where zs: "fb_fuzzy t query k = Inr zs"
    using fb_fuzzy_eq [OF assms] by blast
  have "d = int (LevenshteinDistance w query) \<and> d \<le> k" if "(w, d) \<in> set zs" for w d
    using fb_fuzzy_sound [OF assms zs that] by simp
  then have "\<forall>(w, d) \<in> set zs. d = int (LevenshteinDistance w query) \<and> d \<le> k"
    by blast
  with zs show "\<exists>zs. fb_fuzzy t query k = Inr zs \<and>
            (\<forall>(w, d) \<in> set zs. d = int (LevenshteinDistance w query) \<and> d \<le> k)"
    by blast
next
  show "LevenshteinDistance (rev w') (rev query) = LevenshteinDistance w' query"
    by (rule lev_rev)
qed

theorem C3_emitted_pairs_sound_witness:
  "(0::int) \<le> 1 \<and>
   (\<exists>ys. fuzzy (build [''cat'', ''cats'']) ''cat'' 1 None False = Inr ys \<and>
      (\<forall>(w, d) \<in> set ys. d = int (LevenshteinDistance w ''cat'') \<and> d \<le> 1)) \<and>
   (\<exists>zs. fb_fuzzy (fb_build [''cat'', ''cats'']) ''cat'' 1 = Inr zs \<and>
      (\<forall>(w, d) \<in> set zs. d = int (LevenshteinDistance w ''cat'') \<and> d \<le> 1)) \<and>
   LevenshteinDistance (rev ''tac'') (rev ''cat'') = LevenshteinDistance ''tac'' ''cat''"
proof -
  have h: "(0::int) \<le> 1" by simp
  from C3_emitted_pairs_sound [OF h, of "build [''cat'', ''cats'']" "''cat''"
      "fb_build [''cat'', ''cats'']" "''tac''"]
  show ?thesis by (intro conjI h) (elim conjE, assumption)+
qed

text \<open>
  Claim C4 (with k = 0 the search finds exactly the query when it was inserted), settled
  against the code: with budget 0 the plain search returns the empty list on every trie
  and every query, so no inserted word is found by its own exact query.
\<close>

theorem C4_zero_budget_finds_nothing:
  "fuzzy root query 0 None False = Inr []"
proof -
  obtain ys where ys: "fuzzy root query 0 None False = Inr ys"
    using fuzzy_eq [of 0 root query] by simp
  have "ys = []"
  proof (cases ys)
    case Nil
    then show ?thesis .
  next
    case (Cons p ps)
    obtain w d where "p = (w, d)" by (cases p)
    with Cons have "(w, d) \<in> set ys" by simp
    from fuzzy_sound [OF _ ys this]
    have "int (LevenshteinDistance w query) \<le> 0" "length w < length query" by simp_all
    then have False by (simp add: lev_0_iff)
    then show ?thesis ..
  qed
  with ys show ?thesis by simp
qed







text \<open>
  Claim C7: on a trie built from terminator-free words, for budgets 0 \<le> k1 \<le> k2, every
  word returned for k1 is returned for k2, and a word returned for both carries the same
  distance in both.
\<close>

theorem C7_monotone_in_budget:
  assumes "\<forall>w \<in> set ws. terminator \<notin> set w" "0 \<le> k1" "k1 \<le> k2"
  shows "\<exists>ys1 ys2. fuzzy (build ws) query k1 None False = Inr ys1 \<and>
           fuzzy (build ws) query k2 None False = Inr ys2 \<and>
           fst ` set ys1 \<subseteq> fst ` set ys2 \<and>
           (\<forall>(w1, d1) \<in> set ys1. \<forall>(w2, d2) \<in> set ys2. w1 = w2 \<longrightarrow> d1 = d2)"
proof -
  let ?ys1 = "psearch (\<lambda>_. k1) (nat (int (length query) + k1 + 1)) query (build ws) []"
  let ?ys2 = "psearch (\<lambda>_. k2) (nat (int (length query) + k2 + 1)) query (build ws) []"
  have k2: "0 \<le> k2" using assms(2,3) by simp
  have e1: "fuzzy (build ws) query k1 None False = Inr ?ys1"
    using assms(2) by (rule fuzzy_eq)
  have e2: "fuzzy (build ws) query k2 None False = Inr ?ys2"
    using k2 by (rule fuzzy_eq)
  have s1: "set ?ys1 = {(w, int (LevenshteinDistance w query)) | w.
              w \<in> set ws \<and> int (LevenshteinDistance w query) \<le> k1 \<and>
              int (length w) < int (length query) + k1}"
    using assms(1,2) by (rule fuzzy_build_set)
  have s2: "set ?ys2 = {(w, int (LevenshteinDistance w query)) | w.
              w \<in> set ws \<and> int (LevenshteinDistance w query) \<le> k2 \<and>
              int (length w) < int (length query) + k2}"
    using assms(1) k2 by (rule fuzzy_build_set)
  have "set ?ys1 \<subseteq> set ?ys2"
    unfolding s1 s2 using assms(3) by auto
  then have sub: "fst ` set ?ys1 \<subseteq> fst ` set ?ys2"
    by (rule image_mono)
  have same: "\<forall>(w1, d1) \<in> set ?ys1. \<forall>(w2, d2) \<in> set ?ys2. w1 = w2 \<longrightarrow> d1 = d2"
    unfolding s1 s2 by auto
  from e1 e2 sub same show ?thesis by blast
qed

theorem C7_monotone_in_budget_witness:
  "\<exists>ys1 ys2. fuzzy (build [''cat'', ''cart'', ''dog'']) ''cat'' 1 None False = Inr ys1 \<and>
           fuzzy (build [''cat'', ''cart'', ''dog'']) ''cat'' 2 None False = Inr ys2 \<and>
           fst ` set ys1 \<subseteq> fst ` set ys2 \<and>
           (\<forall>(w1, d1) \<in> set ys1. \<forall>(w2, d2) \<in> set ys2. w1 = w2 \<longrightarrow> d1 = d2)"
  by (rule C7_monotone_in_budget) (simp_all add: terminator_def)





text \<open>
  Claim C10: on a trie built from terminator-free words, however often a word was
  inserted, no word occurs twice in the list the plain search returns; inserting a word
  again leaves the trie as it is; the forward/backward search can return a word twice.
\<close>

theorem C10_each_word_once:
  "((\<forall>w \<in> set ws. terminator \<notin> set w) \<and> 0 \<le> k \<longrightarrow>
      (\<exists>ys. fuzzy (build ws) query k None False = Inr ys \<and> distinct (map fst ys)))
   \<and> insert_word ''cat'' (insert_word ''cat'' empty_trie) = insert_word ''cat'' empty_trie
   \<and> fb_fuzzy (fb_build [''a'']) ''a'' 1 = Inr [(''a'', 0), (''a'', 0)]"
proof (intro conjI impI)
  assume h: "(\<forall>w \<in> set ws. terminator \<notin> set w) \<and> 0 \<le> k"
  then have tf: "\<forall>w \<in> set ws. terminator \<notin> set w" and k: "0 \<le> k" by blast+
  from fuzzy_eq [OF k, of "build ws" query] psearch_distinct(1) [OF build_wf [OF tf]]
  show "\<exists>ys. fuzzy (build ws) query k None False = Inr ys \<and> distinct (map fst ys)"
    by simp
next
  show "insert_word ''cat'' (insert_word ''cat'' empty_trie) = insert_word ''cat'' empty_trie"
    by code_simp
next
  show "fb_fuzzy (fb_build [''a'']) ''a'' 1 = Inr [(''a'', 0), (''a'', 0)]"
    by code_simp
qed

theorem C10_each_word_once_witness:
  "\<exists>ys. fuzzy (build [''cat'', ''cat'', ''car'', ''cat'']) ''cat'' 2 None False = Inr ys \<and>
     distinct (map fst ys)"
proof -
  have h: "(\<forall>w \<in> set [''cat'', ''cat'', ''car'', ''cat'']. terminator \<notin> set w) \<and> (0::int) \<le> 2"
    by (simp add: terminator_def)
  show ?thesis
    by (rule C10_each_word_once [where ws = "[''cat'', ''cat'', ''car'', ''cat'']"
          and k = 2 and query = "''cat''", THEN conjunct1, THEN mp, OF h])
qed

end
